theory Spec2Isabelle
  imports Complex_Main
begin

section \<open>NumPy floating-point values\<close>

text \<open>
  The library computes on NumPy arrays of doubles. A double is modelled as a finite
  real or one of the three special values; finite arithmetic is exact (rounding,
  overflow and underflow are not modelled), and the special values follow IEEE 754 as
  NumPy applies it: a division by zero yields an infinity or NaN (with a warning,
  never an exception), NaN is absorbing and compares false with everything.

  A zero of the model stands for \<open>+0.0\<close>. NumPy compares \<open>-0.0\<close> equal to it, and the
  two differ only as divisors. The zero divisors of \<^verbatim>\<open>betting.py\<close> are \<open>+0.0\<close> when
  the population size is absent or at least the length of the stream, and so are
  those of the two closed-form confidence sequences, but for a sum of bets \<open>-0.0\<close> that
  divides a zero. Those of \<^verbatim>\<open>lambda_predmix_eb\<close> can be \<open>-0.0\<close>, and there the sign of
  each zero is computed beside the value.
\<close>

datatype npfloat = Fin real | PInf | NInf | NaN

datatype pyerror = ZeroDivisionError | ValueError | IndexError | OverflowError
  | AssertNonneg | AssertNoNan | AssertLen

fun isnan :: "npfloat \<Rightarrow> bool" where
  "isnan NaN = True"
| "isnan _ = False"

fun fneg :: "npfloat \<Rightarrow> npfloat" where
  "fneg (Fin a) = Fin (- a)"
| "fneg PInf = NInf"
| "fneg NInf = PInf"
| "fneg NaN = NaN"

fun fadd :: "npfloat \<Rightarrow> npfloat \<Rightarrow> npfloat" where
  "fadd (Fin a) (Fin b) = Fin (a + b)"
| "fadd NaN _ = NaN"
| "fadd _ NaN = NaN"
| "fadd PInf NInf = NaN"
| "fadd NInf PInf = NaN"
| "fadd PInf _ = PInf"
| "fadd _ PInf = PInf"
| "fadd NInf _ = NInf"
| "fadd _ NInf = NInf"

definition fsub :: "npfloat \<Rightarrow> npfloat \<Rightarrow> npfloat" where
  "fsub a b = fadd a (fneg b)"

fun fmul :: "npfloat \<Rightarrow> npfloat \<Rightarrow> npfloat" where
  "fmul (Fin a) (Fin b) = Fin (a * b)"
| "fmul NaN _ = NaN"
| "fmul _ NaN = NaN"
| "fmul (Fin a) PInf = (if a = 0 then NaN else if 0 < a then PInf else NInf)"
| "fmul (Fin a) NInf = (if a = 0 then NaN else if 0 < a then NInf else PInf)"
| "fmul PInf (Fin b) = (if b = 0 then NaN else if 0 < b then PInf else NInf)"
| "fmul NInf (Fin b) = (if b = 0 then NaN else if 0 < b then NInf else PInf)"
| "fmul PInf PInf = PInf"
| "fmul PInf NInf = NInf"
| "fmul NInf PInf = NInf"
| "fmul NInf NInf = PInf"

fun fdiv :: "npfloat \<Rightarrow> npfloat \<Rightarrow> npfloat" where
  "fdiv (Fin a) (Fin b) =
     (if b = 0 then (if a = 0 then NaN else if 0 < a then PInf else NInf)
      else Fin (a / b))"
| "fdiv NaN _ = NaN"
| "fdiv _ NaN = NaN"
| "fdiv (Fin a) PInf = Fin 0"
| "fdiv (Fin a) NInf = Fin 0"
| "fdiv PInf (Fin b) = (if 0 \<le> b then PInf else NInf)"
| "fdiv NInf (Fin b) = (if 0 \<le> b then NInf else PInf)"
| "fdiv PInf PInf = NaN"
| "fdiv PInf NInf = NaN"
| "fdiv NInf PInf = NaN"
| "fdiv NInf NInf = NaN"

fun fle :: "npfloat \<Rightarrow> npfloat \<Rightarrow> bool" where
  "fle (Fin a) (Fin b) = (a \<le> b)"
| "fle NaN _ = False"
| "fle _ NaN = False"
| "fle NInf _ = True"
| "fle _ PInf = True"
| "fle PInf _ = False"
| "fle _ NInf = False"

fun flt :: "npfloat \<Rightarrow> npfloat \<Rightarrow> bool" where
  "flt (Fin a) (Fin b) = (a < b)"
| "flt NaN _ = False"
| "flt _ NaN = False"
| "flt PInf _ = False"
| "flt _ NInf = False"
| "flt NInf _ = True"
| "flt _ PInf = True"

text \<open>\<^verbatim>\<open>np.maximum\<close> and \<^verbatim>\<open>np.minimum\<close> propagate NaN.\<close>

definition fmaximum :: "npfloat \<Rightarrow> npfloat \<Rightarrow> npfloat" where
  "fmaximum a b = (if isnan a \<or> isnan b then NaN else if fle a b then b else a)"

definition fminimum :: "npfloat \<Rightarrow> npfloat \<Rightarrow> npfloat" where
  "fminimum a b = (if isnan a \<or> isnan b then NaN else if fle a b then a else b)"

fun fsqrt :: "npfloat \<Rightarrow> npfloat" where
  "fsqrt (Fin a) = (if a < 0 then NaN else Fin (sqrt a))"
| "fsqrt PInf = PInf"
| "fsqrt NInf = NaN"
| "fsqrt NaN = NaN"

fun flog :: "npfloat \<Rightarrow> npfloat" where
  "flog (Fin a) = (if a < 0 then NaN else if a = 0 then NInf else Fin (ln a))"
| "flog PInf = PInf"
| "flog NInf = NaN"
| "flog NaN = NaN"

text \<open>\<^verbatim>\<open>np.power(v, 2)\<close>\<close>

fun fpow2 :: "npfloat \<Rightarrow> npfloat" where
  "fpow2 (Fin a) = Fin (a\<^sup>2)"
| "fpow2 PInf = PInf"
| "fpow2 NInf = PInf"
| "fpow2 NaN = NaN"

text \<open>\<^verbatim>\<open>v[np.isnan(v)] = c\<close>, one entry\<close>

definition nan_to :: "real \<Rightarrow> npfloat \<Rightarrow> npfloat" where
  "nan_to c v = (if isnan v then Fin c else v)"

text \<open>
  The IEEE sign bit of a value, \<open>negzero\<close> telling the sign of the value when it is a
  zero, and the division by a value whose zero can be \<open>-0.0\<close>: a quotient by \<open>-0.0\<close> is
  the negated quotient by \<open>+0.0\<close>.
\<close>

definition sign_bit :: "npfloat \<Rightarrow> bool \<Rightarrow> bool" where
  "sign_bit v negzero =
     (case v of Fin a \<Rightarrow> a < 0 \<or> (a = 0 \<and> negzero) | NInf \<Rightarrow> True | _ \<Rightarrow> False)"

definition fdiv_signed :: "npfloat \<Rightarrow> npfloat \<Rightarrow> bool \<Rightarrow> npfloat" where
  "fdiv_signed a b negzero =
     (if b = Fin 0 \<and> negzero then fneg (fdiv a (Fin 0)) else fdiv a b)"

text \<open>
  \<^verbatim>\<open>num / (c * v)\<close> for a number \<open>c\<close> and an entry \<open>v\<close> of an array: a zero product
  is negative when exactly one factor has its sign bit set.
\<close>

definition fdiv_by_product :: "npfloat \<Rightarrow> real \<Rightarrow> npfloat \<Rightarrow> bool \<Rightarrow> npfloat" where
  "fdiv_by_product num c v negzero =
     fdiv_signed num (fmul (Fin c) v) ((c < 0) \<noteq> sign_bit v negzero)"

subsection \<open>Arrays\<close>

text \<open>
  An array is a list, of any length: the limits of memory are not modelled.
  \<^verbatim>\<open>np.cumsum\<close>, \<^verbatim>\<open>np.cumprod\<close> and \<^verbatim>\<open>np.maximum.accumulate\<close> scan from the
  left, starting with the first entry.
\<close>

fun cum :: "('a \<Rightarrow> 'a \<Rightarrow> 'a) \<Rightarrow> 'a \<Rightarrow> 'a list \<Rightarrow> 'a list" where
  "cum f acc [] = []"
| "cum f acc (v # vs) = f acc v # cum f (f acc v) vs"

definition accumulate :: "('a \<Rightarrow> 'a \<Rightarrow> 'a) \<Rightarrow> 'a list \<Rightarrow> 'a list" where
  "accumulate f vs = (case vs of [] \<Rightarrow> [] | v # ws \<Rightarrow> v # cum f v ws)"

definition cumsum :: "npfloat list \<Rightarrow> npfloat list" where
  "cumsum = accumulate fadd"

definition cumprod :: "npfloat list \<Rightarrow> npfloat list" where
  "cumprod = accumulate fmul"

text \<open>\<^verbatim>\<open>np.arange(1, len(x) + 1)\<close>\<close>

definition arange1 :: "nat \<Rightarrow> nat list" where
  "arange1 n = [1..<Suc n]"

text \<open>
  An array of length 1 combined with arrays of length \<open>n\<close> is stretched to \<open>n\<close> by
  NumPy's broadcasting; any other length mismatch raises \<^verbatim>\<open>ValueError\<close>.
\<close>

definition broadcast_to :: "nat \<Rightarrow> 'a list \<Rightarrow> pyerror + 'a list" where
  "broadcast_to n vs =
     (if length vs = n then Inr vs
      else if length vs = 1 then Inr (replicate n (hd vs))
      else Inl ValueError)"

section \<open>predmix.py: predictable-mixture bets\<close>

text \<open>
  \<^verbatim>\<open>mu_hat_t = (fake_obs * prior_mean + np.cumsum(x)) / (t + fake_obs)\<close>
\<close>

definition mu_hat_t :: "real list \<Rightarrow> real \<Rightarrow> real \<Rightarrow> npfloat list" where
  "mu_hat_t x prior_mean fake_obs =
     map2 (\<lambda>c t. fdiv (fadd (Fin (fake_obs * prior_mean)) c) (Fin (real t + fake_obs)))
       (cumsum (map Fin x)) (arange1 (length x))"

text \<open>
  \<^verbatim>\<open>sigma2_t = (fake_obs * prior_variance + np.cumsum(np.power(x - mu_hat_t, 2))) / (t + fake_obs)\<close>
\<close>

definition sigma2_t :: "real list \<Rightarrow> real \<Rightarrow> real \<Rightarrow> real \<Rightarrow> npfloat list" where
  "sigma2_t x prior_mean prior_variance fake_obs =
     map2 (\<lambda>c t. fdiv (fadd (Fin (fake_obs * prior_variance)) c) (Fin (real t + fake_obs)))
       (cumsum (map2 (\<lambda>v mu. fpow2 (fsub (Fin v) mu)) x (mu_hat_t x prior_mean fake_obs)))
       (arange1 (length x))"

text \<open>
  \<^verbatim>\<open>sigma2_tminus1 = np.append(prior_variance, sigma2_t[0 : (len(x) - 1)])\<close>
\<close>

definition sigma2_tminus1 :: "real list \<Rightarrow> real \<Rightarrow> real \<Rightarrow> real \<Rightarrow> npfloat list" where
  "sigma2_tminus1 x prior_mean prior_variance fake_obs =
     Fin prior_variance # take (length x - 1) (sigma2_t x prior_mean prior_variance fake_obs)"

text \<open>
  The signs of the zeros of \<^verbatim>\<open>sigma2_tminus1\<close>. The first entry is the prior
  variance. An entry of \<^verbatim>\<open>sigma2_t\<close> is a quotient whose numerator is never \<open>-0.0\<close>
  (a sum of squares is \<open>+0.0\<close> or more, \<open>-0.0 + 0.0\<close> is \<open>+0.0\<close>, and so is a sum that
  cancels), so a zero quotient has the sign of its denominator \<^verbatim>\<open>t + fake_obs\<close>.
\<close>

definition sigma2_tminus1_negzero :: "nat \<Rightarrow> real \<Rightarrow> bool list" where
  "sigma2_tminus1_negzero n fake_obs =
     False # map (\<lambda>t. real t + fake_obs < 0) (arange1 (n - 1))"

text \<open>
  The bets. \<^verbatim>\<open>1 / alpha\<close> divides two Python numbers and raises
  \<^verbatim>\<open>ZeroDivisionError\<close> at \<open>alpha = 0\<close>; everything after it is array arithmetic.
  \<^verbatim>\<open>truncation\<close> defaults to \<^verbatim>\<open>math.inf\<close>, so it is an \<^typ>\<open>npfloat\<close>;
  \<^verbatim>\<open>fixed_n\<close> is \<^verbatim>\<open>None\<close> or a number. Without \<^verbatim>\<open>fixed_n\<close> the array
  \<^verbatim>\<open>t\<close> of the stream's length meets \<^verbatim>\<open>sigma2_tminus1\<close>, which has one entry for
  an empty stream, and broadcasting gives no bet; with \<^verbatim>\<open>fixed_n\<close> nothing of the
  stream's length is involved, and an empty stream gets the one bet of the prior
  variance. The source also computes \<^verbatim>\<open>mu_hat_tminus1\<close> and never reads it.
\<close>

definition lambda_predmix_eb ::
  "real list \<Rightarrow> npfloat \<Rightarrow> real \<Rightarrow> real option \<Rightarrow> real \<Rightarrow> real \<Rightarrow> real \<Rightarrow> real
     \<Rightarrow> pyerror + npfloat list" where
  "lambda_predmix_eb x truncation alpha fixed_n prior_mean prior_variance fake_obs scale =
     (if alpha = 0 then Inl ZeroDivisionError
      else
        let num = fmul (Fin 2) (flog (Fin (1 / alpha)));
            s2 = zip (sigma2_tminus1 x prior_mean prior_variance fake_obs)
                     (sigma2_tminus1_negzero (length x) fake_obs);
            lambdas =
              (case fixed_n of
                 None \<Rightarrow>
                   map2 (\<lambda>t (v, z). fsqrt (fdiv_by_product num (real t * ln (1 + real t)) v z))
                     (arange1 (length x)) s2
               | Some fn \<Rightarrow>
                   map (\<lambda>(v, z). fsqrt (fdiv_by_product num fn v z)) s2)
        in Inr (map (\<lambda>l. fmul (fminimum truncation (nan_to 0 l)) (Fin scale)) lambdas))"


text \<open>
  \<^verbatim>\<open>predmix_hoeffding_cs\<close> combines the caller's \<^verbatim>\<open>lambda_params\<close> with arrays
  of the stream's length, so each binary operation broadcasts on its own.
\<close>

definition bc2 :: "('a \<Rightarrow> 'b \<Rightarrow> 'c) \<Rightarrow> 'a list \<Rightarrow> 'b list \<Rightarrow> pyerror + 'c list" where
  "bc2 f vs ws =
     (if length vs = length ws then Inr (map2 f vs ws)
      else if length vs = 1 then Inr (map (f (hd vs)) ws)
      else if length ws = 1 then Inr (map (\<lambda>v. f v (hd ws)) vs)
      else Inl ValueError)"

definition hoeffding_default_lambdas :: "real \<Rightarrow> nat \<Rightarrow> npfloat list" where
  "hoeffding_default_lambdas alpha n =
     map (\<lambda>t. fminimum (Fin 1)
            (fsqrt (fdiv (fmul (Fin 8) (flog (Fin (2 / alpha))))
                         (Fin (real t * ln (real t + 1))))))
       (arange1 n)"

text \<open>
  The source evaluates \<^verbatim>\<open>2 / alpha\<close> first when \<^verbatim>\<open>lambda_params\<close> is
  \<^verbatim>\<open>None\<close>, and after the first broadcast otherwise. \<^verbatim>\<open>mu_hat_t\<close> is computed
  and never read, but its division can raise.
\<close>

definition predmix_hoeffding_cs ::
  "real list \<Rightarrow> npfloat list option \<Rightarrow> real \<Rightarrow> bool
     \<Rightarrow> pyerror + (npfloat list \<times> npfloat list)" where
  "predmix_hoeffding_cs x lambda_params alpha running_intersection =
     (case (case lambda_params of
              None \<Rightarrow> if alpha = 0 then Inl ZeroDivisionError
                      else Inr (hoeffding_default_lambdas alpha (length x))
            | Some lp \<Rightarrow> Inr lp) of
        Inl e \<Rightarrow> Inl e
      | Inr lam \<Rightarrow>
     (case bc2 fmul lam (map Fin x) of Inl e \<Rightarrow> Inl e | Inr lx \<Rightarrow>
     (case bc2 fdiv (cumsum lx) (cumsum lam) of Inl e \<Rightarrow> Inl e | Inr mu_hat \<Rightarrow>
      if alpha = 0 then Inl ZeroDivisionError
      else
        let psi = map (\<lambda>v. fdiv v (Fin 8)) (cumsum (map fpow2 lam));
            margin = map2 (\<lambda>p c. fdiv (fadd p (flog (Fin (2 / alpha)))) c) psi (cumsum lam)
        in
     (case bc2 fmul (map Fin x) lam of Inl e \<Rightarrow> Inl e | Inr xl \<Rightarrow>
     (case bc2 fdiv (cumsum xl) (cumsum lam) of Inl e \<Rightarrow> Inl e | Inr w0 \<Rightarrow>
        let weighted_mu_hat_t = map (nan_to (1 / 2)) w0 in
     (case bc2 fsub weighted_mu_hat_t margin of Inl e \<Rightarrow> Inl e | Inr l0 \<Rightarrow>
     (case bc2 fadd weighted_mu_hat_t margin of Inl e \<Rightarrow> Inl e | Inr u0 \<Rightarrow>
        let l = map (\<lambda>v. fmaximum v (Fin 0)) l0;
            u = map (\<lambda>v. fminimum v (Fin 1)) u0
        in Inr (if running_intersection
                then (accumulate fmaximum l, accumulate fminimum u)
                else (l, u)))))))))"

text \<open>
  \<^verbatim>\<open>predmix_empbern_cs\<close> calls \<^verbatim>\<open>lambda_predmix_eb\<close> with \<^verbatim>\<open>alpha / 2\<close> and the
  default prior. For an empty stream \<^verbatim>\<open>mu_hat_tminus1\<close> has one entry and the bets
  none or one, so each binary operation broadcasts on its own here too.
\<close>

definition predmix_empbern_cs ::
  "real list \<Rightarrow> real \<Rightarrow> npfloat \<Rightarrow> bool \<Rightarrow> real option
     \<Rightarrow> pyerror + (npfloat list \<times> npfloat list)" where
  "predmix_empbern_cs x alpha truncation running_intersection fixed_n =
     (let mu_hat_t = map2 (\<lambda>c t. fdiv c (Fin (real t))) (cumsum (map Fin x)) (arange1 (length x));
          mu_hat_tminus1 = Fin 0 # take (length x - 1) mu_hat_t
      in
      case lambda_predmix_eb x truncation (alpha / 2) fixed_n (1 / 2) (1 / 4) 1 1 of
        Inl e \<Rightarrow> Inl e
      | Inr lambdas \<Rightarrow>
     (case bc2 (\<lambda>v mu. fpow2 (fsub v mu)) (map Fin x) mu_hat_tminus1 of
        Inl e \<Rightarrow> Inl e | Inr sq \<Rightarrow>
     (case bc2 fmul sq (map (\<lambda>l. fsub (fneg (flog (fsub (Fin 1) l))) l) lambdas) of
        Inl e \<Rightarrow> Inl e | Inr psi \<Rightarrow>
      if alpha = 0 then Inl ZeroDivisionError
      else
     (case bc2 fdiv (map (fadd (flog (Fin (2 / alpha)))) (cumsum psi)) (cumsum lambdas) of
        Inl e \<Rightarrow> Inl e | Inr margin \<Rightarrow>
     (case bc2 fmul (map Fin x) lambdas of Inl e \<Rightarrow> Inl e | Inr xl \<Rightarrow>
     (case bc2 fdiv (cumsum xl) (cumsum lambdas) of Inl e \<Rightarrow> Inl e | Inr weighted_mu_hat_t \<Rightarrow>
     (case bc2 fsub weighted_mu_hat_t margin of Inl e \<Rightarrow> Inl e | Inr l0 \<Rightarrow>
     (case bc2 fadd weighted_mu_hat_t margin of Inl e \<Rightarrow> Inl e | Inr u0 \<Rightarrow>
        let l = map (\<lambda>v. fmaximum v (Fin 0)) l0;
            u = map (\<lambda>v. fminimum v (Fin 1)) u0
        in Inr (if running_intersection
                then (accumulate fmaximum l, accumulate fminimum u)
                else (l, u))))))))))"

subsection \<open>The bets as the specification words them\<close>

text \<open>
  The regularized running mean \<open>s_hat t = (k \<mu>\<^sub>0 + \<Sum>\<^bsub>r\<le>t\<^esub> x\<^sub>r) / (t + k)\<close> and variance
  \<open>v t = (k \<sigma>\<^sub>0\<^sup>2 + \<Sum>\<^bsub>r\<le>t\<^esub> (x\<^sub>r - s_hat r)\<^sup>2) / (t + k)\<close> with \<open>v 0 = \<sigma>\<^sub>0\<^sup>2\<close>, observations
  numbered from 1, and the bet
  \<open>\<lambda> t = s \<sqdot> min(T, \<surd>(2 ln(1/\<alpha>) / (t ln(1+t) v (t-1))))\<close>, NaN read as 0 before the min.

  The root \<open>\<surd>(A / (c v))\<close> is written out on the reals: the root of the quotient where
  that is a number that is not negative; 0 where the quotient is negative or \<open>0/0\<close>
  (a NaN, read as 0); and where a number \<open>A \<noteq> 0\<close> is divided by a zero product, \<open>+\<infinity>\<close>
  or, for the quotient \<open>-\<infinity>\<close>, again 0, the zero product being negative when exactly
  one of \<open>c\<close> and \<open>v\<close> is. The minimum with the cap and the product with the scale are
  written out as well, by cases on the infinities and NaN.
\<close>

definition spec_root :: "real \<Rightarrow> real \<Rightarrow> real \<Rightarrow> npfloat" where
  "spec_root A c v =
     (if c * v \<noteq> 0 then (if A / (c * v) < 0 then Fin 0 else Fin (sqrt (A / (c * v))))
      else if A \<noteq> 0 \<and> ((A < 0) = ((c < 0) \<noteq> (v < 0))) then PInf
      else Fin 0)"

definition spec_s_hat :: "real list \<Rightarrow> real \<Rightarrow> real \<Rightarrow> nat \<Rightarrow> real" where
  "spec_s_hat x k mu0 t = (k * mu0 + (\<Sum>r = 1..t. x ! (r - 1))) / (real t + k)"

definition spec_v :: "real list \<Rightarrow> real \<Rightarrow> real \<Rightarrow> real \<Rightarrow> nat \<Rightarrow> real" where
  "spec_v x k mu0 sigma0 t =
     (if t = 0 then sigma0
      else (k * sigma0 + (\<Sum>r = 1..t. (x ! (r - 1) - spec_s_hat x k mu0 r)\<^sup>2)) / (real t + k))"

definition spec_min :: "npfloat \<Rightarrow> npfloat \<Rightarrow> npfloat" where
  "spec_min T r =
     (case T of
        NaN \<Rightarrow> NaN
      | PInf \<Rightarrow> r
      | NInf \<Rightarrow> (case r of NaN \<Rightarrow> NaN | _ \<Rightarrow> NInf)
      | Fin c \<Rightarrow> (case r of Fin a \<Rightarrow> Fin (min c a) | PInf \<Rightarrow> Fin c | NInf \<Rightarrow> NInf | NaN \<Rightarrow> NaN))"

definition spec_times :: "real \<Rightarrow> npfloat \<Rightarrow> npfloat" where
  "spec_times s v =
     (case v of
        Fin a \<Rightarrow> Fin (s * a)
      | NaN \<Rightarrow> NaN
      | PInf \<Rightarrow> (if s = 0 then NaN else if 0 < s then PInf else NInf)
      | NInf \<Rightarrow> (if s = 0 then NaN else if 0 < s then NInf else PInf))"

definition spec_lambda ::
  "real list \<Rightarrow> npfloat \<Rightarrow> real \<Rightarrow> real option \<Rightarrow> real \<Rightarrow> real \<Rightarrow> real \<Rightarrow> real \<Rightarrow> nat
     \<Rightarrow> npfloat" where
  "spec_lambda x T alpha fixed_n mu0 sigma0 k s t =
     spec_times s
       (spec_min T
          (spec_root (2 * ln (1 / alpha))
             (case fixed_n of None \<Rightarrow> real t * ln (1 + real t) | Some n \<Rightarrow> n)
             (spec_v x k mu0 sigma0 (t - 1))))"

section \<open>betting.py: the betting martingale\<close>

text \<open>
  A bet generator maps the stream and the candidate mean to an array of bets; the
  default one, \<^verbatim>\<open>lambda x, m: lambda_predmix_eb(x, alpha=alpha)\<close>, can raise.
\<close>

type_synonym bets_fn = "real list \<Rightarrow> real \<Rightarrow> pyerror + npfloat list"

definition default_bets :: "real \<Rightarrow> bets_fn" where
  "default_bets alpha = (\<lambda>x m. lambda_predmix_eb x PInf alpha None (1 / 2) (1 / 4) 1 1)"

text \<open>
  The population size is a Python integer and \<^verbatim>\<open>t\<close> an array of 64-bit integers:
  in \<^verbatim>\<open>N - (t - 1)\<close> NumPy converts \<^verbatim>\<open>N\<close> to a 64-bit integer, which raises
  \<^verbatim>\<open>OverflowError\<close> when it does not fit, and the subtraction wraps around.
\<close>

definition int64_overflow :: "int \<Rightarrow> bool" where
  "int64_overflow N = (N < - (2 ^ 63) \<or> 2 ^ 63 \<le> N)"

definition wrap64 :: "int \<Rightarrow> int" where
  "wrap64 i = (i + 2 ^ 63) mod 2 ^ 64 - 2 ^ 63"

text \<open>
  \<^verbatim>\<open>mu_t = (N * m - S_tminus1) / (N - (t - 1))\<close> with
  \<^verbatim>\<open>S_tminus1 = np.append(0, S_t[0 : (len(x) - 1)])\<close>, for an \<^verbatim>\<open>N\<close> that fits.
\<close>

definition mu_t :: "real list \<Rightarrow> real \<Rightarrow> int \<Rightarrow> npfloat list" where
  "mu_t x m N =
     map2 (\<lambda>s t. fdiv (fsub (Fin (real_of_int N * m)) s)
                     (Fin (real_of_int (wrap64 (N - (int t - 1))))))
       (Fin 0 # take (length x - 1) (cumsum (map Fin x))) (arange1 (length x))"

definition null_means :: "real list \<Rightarrow> real \<Rightarrow> int option \<Rightarrow> npfloat list" where
  "null_means x m N =
     (case N of Some N' \<Rightarrow> mu_t x m N' | None \<Rightarrow> replicate (length x) (Fin m))"

definition population_overflow :: "int option \<Rightarrow> bool" where
  "population_overflow N = (case N of Some N' \<Rightarrow> int64_overflow N' | None \<Rightarrow> False)"

text \<open>\<^verbatim>\<open>trunc[trunc == math.inf] = 1000\<close>, one entry\<close>

definition inf_to_1000 :: "npfloat \<Rightarrow> npfloat" where
  "inf_to_1000 v = (if v = PInf then Fin 1000 else v)"

definition upper_trunc :: "real \<Rightarrow> bool \<Rightarrow> npfloat \<Rightarrow> npfloat" where
  "upper_trunc trunc_scale m_trunc mu =
     (if m_trunc then inf_to_1000 (fdiv (Fin trunc_scale) mu) else Fin trunc_scale)"

definition lower_trunc :: "real \<Rightarrow> bool \<Rightarrow> npfloat \<Rightarrow> npfloat" where
  "lower_trunc trunc_scale m_trunc mu =
     (if m_trunc then inf_to_1000 (fdiv (Fin trunc_scale) (fsub (Fin 1) mu))
      else Fin trunc_scale)"

definition truncate_positive :: "real \<Rightarrow> bool \<Rightarrow> npfloat \<Rightarrow> npfloat \<Rightarrow> npfloat" where
  "truncate_positive trunc_scale m_trunc mu l =
     fminimum (upper_trunc trunc_scale m_trunc mu)
       (fmaximum (fneg (lower_trunc trunc_scale m_trunc mu)) l)"

definition truncate_negative :: "real \<Rightarrow> bool \<Rightarrow> npfloat \<Rightarrow> npfloat \<Rightarrow> npfloat" where
  "truncate_negative trunc_scale m_trunc mu l =
     fminimum (lower_trunc trunc_scale m_trunc mu)
       (fmaximum (fneg (upper_trunc trunc_scale m_trunc mu)) l)"

text \<open>
  \<^verbatim>\<open>np.cumprod(1 + lambdas_positive * (x - mu_t))\<close> and
  \<^verbatim>\<open>np.cumprod(1 - lambdas_negative * (x - mu_t))\<close>
\<close>

definition positive_factor :: "npfloat \<Rightarrow> real \<Rightarrow> npfloat \<Rightarrow> npfloat" where
  "positive_factor l v mu = fadd (Fin 1) (fmul l (fsub (Fin v) mu))"

definition negative_factor :: "npfloat \<Rightarrow> real \<Rightarrow> npfloat \<Rightarrow> npfloat" where
  "negative_factor l v mu = fsub (Fin 1) (fmul l (fsub (Fin v) mu))"

definition capital_process_positive ::
  "real list \<Rightarrow> npfloat list \<Rightarrow> npfloat list \<Rightarrow> npfloat list" where
  "capital_process_positive x mus ls =
     cumprod (map2 (\<lambda>l (v, mu). positive_factor l v mu) ls (zip x mus))"

definition capital_process_negative ::
  "real list \<Rightarrow> npfloat list \<Rightarrow> npfloat list \<Rightarrow> npfloat list" where
  "capital_process_negative x mus ls =
     cumprod (map2 (\<lambda>l (v, mu). negative_factor l v mu) ls (zip x mus))"

definition combine :: "bool \<Rightarrow> real \<Rightarrow> npfloat \<Rightarrow> npfloat \<Rightarrow> npfloat" where
  "combine convex_comb theta p q =
     (if theta = 1 then fmul (Fin theta) p
      else if theta = 0 then fmul (Fin (1 - theta)) q
      else if convex_comb then fadd (fmul (Fin theta) p) (fmul (Fin (1 - theta)) q)
      else fmaximum (fmul (Fin theta) p) (fmul (Fin (1 - theta)) q))"

text \<open>
  \<^verbatim>\<open>capital_process[mu_t <= 0] = math.inf; capital_process[mu_t >= 1] = math.inf\<close>
\<close>

definition masked :: "npfloat \<Rightarrow> bool" where
  "masked mu = (fle mu (Fin 0) \<or> fle (Fin 1) mu)"

definition mask :: "npfloat \<Rightarrow> npfloat \<Rightarrow> npfloat" where
  "mask mu c = (if masked mu then PInf else c)"

text \<open>The capital process as it stands before the two closing assertions.\<close>

definition capital_process ::
  "real list \<Rightarrow> real \<Rightarrow> int option \<Rightarrow> bool \<Rightarrow> real \<Rightarrow> real \<Rightarrow> bool
     \<Rightarrow> npfloat list \<Rightarrow> npfloat list \<Rightarrow> npfloat list" where
  "capital_process x m N convex_comb theta trunc_scale m_trunc lambdas_positive lambdas_negative =
     (let mus = null_means x m N;
          lpos = map2 (truncate_positive trunc_scale m_trunc) mus lambdas_positive;
          lneg = map2 (truncate_negative trunc_scale m_trunc) mus lambdas_negative
      in map2 mask mus
           (map2 (combine convex_comb theta)
              (capital_process_positive x mus lpos)
              (capital_process_negative x mus lneg)))"

text \<open>
  The generators \<^verbatim>\<open>betting_mart\<close> calls: \<^verbatim>\<open>lambdas_fn_positive\<close>, the default
  for \<^verbatim>\<open>None\<close>, and \<^verbatim>\<open>lambdas_fn_negative\<close>, the positive one for \<^verbatim>\<open>None\<close>.
\<close>

definition fn_positive :: "real \<Rightarrow> bets_fn option \<Rightarrow> bets_fn" where
  "fn_positive alpha lambdas_fn_positive =
     (case lambdas_fn_positive of None \<Rightarrow> default_bets alpha | Some f \<Rightarrow> f)"

definition fn_negative :: "real \<Rightarrow> bets_fn option \<Rightarrow> bets_fn option \<Rightarrow> bets_fn" where
  "fn_negative alpha lambdas_fn_positive lambdas_fn_negative =
     (case lambdas_fn_negative of
        None \<Rightarrow> fn_positive alpha lambdas_fn_positive
      | Some f \<Rightarrow> f)"

text \<open>
  The shapes in \<^verbatim>\<open>betting_mart\<close>. Each array of bets meets arrays of the stream's
  length \<open>n\<close>, the two capital processes meet each other unless \<open>\<theta>\<close> is 0 or 1, and the
  mask assignment \<^verbatim>\<open>capital_process[mu_t <= 0] = math.inf\<close> needs a capital process of
  length \<open>n\<close>. Two lengths that do not broadcast raise \<^verbatim>\<open>ValueError\<close>; a capital
  process of another length, which a stream of length 1 stretched to the number of
  bets gives, raises \<^verbatim>\<open>IndexError\<close> at the mask.
\<close>

definition bshape :: "nat \<Rightarrow> nat \<Rightarrow> nat option" where
  "bshape a b =
     (if a = b then Some a else if a = 1 then Some b else if b = 1 then Some a else None)"

definition bets_shape_error :: "nat \<Rightarrow> real \<Rightarrow> nat \<Rightarrow> nat \<Rightarrow> pyerror option" where
  "bets_shape_error n theta k k' =
     (case bshape n k of None \<Rightarrow> Some ValueError | Some P \<Rightarrow>
     (case bshape n k' of None \<Rightarrow> Some ValueError | Some Q \<Rightarrow>
     (case (if theta = 1 then Some P else if theta = 0 then Some Q else bshape P Q) of
        None \<Rightarrow> Some ValueError
      | Some L \<Rightarrow> if L = n then None else Some IndexError)))"

text \<open>
  The bets as they enter a capital process of length \<open>n\<close>: the array itself, or its
  one entry stretched. With the shapes accepted, an array of any other length belongs
  to the capital process that \<open>\<theta> = 0\<close> or \<open>\<theta> = 1\<close> leaves out; nothing of it is read, and
  zeros stand in for it.
\<close>

definition stretch :: "nat \<Rightarrow> npfloat list \<Rightarrow> npfloat list" where
  "stretch n vs =
     (if length vs = n then vs
      else if length vs = 1 then replicate n (hd vs)
      else replicate n (Fin 0))"

text \<open>
  \<^verbatim>\<open>betting_mart\<close>. The null means are computed first, so a population size that
  does not fit raises before the generators are called. The first assertion runs when
  some entry is negative and then fails; the second fails on NaN.
\<close>

definition betting_mart ::
  "real list \<Rightarrow> real \<Rightarrow> real \<Rightarrow> bets_fn option \<Rightarrow> bets_fn option \<Rightarrow> int option
     \<Rightarrow> bool \<Rightarrow> real \<Rightarrow> real \<Rightarrow> bool \<Rightarrow> pyerror + npfloat list" where
  "betting_mart x m alpha lambdas_fn_positive lambdas_fn_negative N
       convex_comb theta trunc_scale m_trunc =
     (if population_overflow N then Inl OverflowError
      else
     (case fn_positive alpha lambdas_fn_positive x m of Inl e \<Rightarrow> Inl e | Inr lp0 \<Rightarrow>
     (case fn_negative alpha lambdas_fn_positive lambdas_fn_negative x m of
        Inl e \<Rightarrow> Inl e | Inr ln0 \<Rightarrow>
     (case bets_shape_error (length x) theta (length lp0) (length ln0) of
        Some e \<Rightarrow> Inl e
      | None \<Rightarrow>
        let cp = capital_process x m N convex_comb theta trunc_scale m_trunc
                   (stretch (length x) lp0) (stretch (length x) ln0) in
        if list_ex (\<lambda>c. flt c (Fin 0)) cp then Inl AssertNonneg
        else if list_ex isnan cp then Inl AssertNoNan
        else Inr cp))))"

subsection \<open>The diversified martingale\<close>

fun diversified_loop ::
  "(nat \<Rightarrow> pyerror + npfloat list) \<Rightarrow> real list \<Rightarrow> nat list \<Rightarrow> npfloat list
     \<Rightarrow> pyerror + npfloat list" where
  "diversified_loop marts w [] mart = Inr mart"
| "diversified_loop marts w (k # ks) mart =
     (if length w \<le> k then Inl IndexError
      else case marts k of
             Inl e \<Rightarrow> Inl e
           | Inr bm \<Rightarrow>
               diversified_loop marts w ks (map2 fadd mart (map (fmul (Fin (w ! k))) bm)))"

text \<open>
  \<^verbatim>\<open>1 / K\<close> divides two Python integers and raises at \<open>K = 0\<close>; reading
  \<^verbatim>\<open>lambdas_weights[k]\<close> past the end raises \<^verbatim>\<open>IndexError\<close>.
\<close>

definition diversified_betting_mart ::
  "real list \<Rightarrow> real \<Rightarrow> bets_fn option list \<Rightarrow> bets_fn option list option
     \<Rightarrow> real list option \<Rightarrow> real \<Rightarrow> int option \<Rightarrow> bool \<Rightarrow> real \<Rightarrow> real \<Rightarrow> bool
     \<Rightarrow> pyerror + npfloat list" where
  "diversified_betting_mart x m lambdas_fns_positive lambdas_fns_negative lambdas_weights
       alpha N convex_comb theta trunc_scale m_trunc =
     (let K = length lambdas_fns_positive in
      if lambdas_weights = None \<and> K = 0 then Inl ZeroDivisionError
      else
        let w = (case lambdas_weights of None \<Rightarrow> replicate K (1 / real K) | Some ws \<Rightarrow> ws);
            fns_negative =
              (case lambdas_fns_negative of None \<Rightarrow> lambdas_fns_positive | Some g \<Rightarrow> g)
        in
        if length lambdas_fns_positive \<noteq> length fns_negative then Inl AssertLen
        else
          diversified_loop
            (\<lambda>k. betting_mart x m alpha (lambdas_fns_positive ! k) (fns_negative ! k) N
                   convex_comb theta trunc_scale m_trunc)
            w [0..<K] (replicate (length x) (Fin 0)))"

subsection \<open>Inverting a martingale on a grid\<close>

text \<open>
  \<^verbatim>\<open>possible_m = np.arange(0, 1 + 1 / breaks, step=1 / breaks)\<close>: the grid
  \<open>0, 1/breaks, \<dots>, 1\<close> (\<^verbatim>\<open>breaks\<close> a positive integer; the rounding that can add a point
  to an \<^verbatim>\<open>arange\<close> is not modelled).
\<close>

definition possible_m :: "nat \<Rightarrow> real list" where
  "possible_m breaks = map (\<lambda>i. real i / real breaks) [0..<Suc breaks]"

text \<open>
  The serial loop \<^verbatim>\<open>confseq_mtx[i, :] = mart_fn(x, m) <= 1 / alpha\<close>: the
  martingale is evaluated before \<^verbatim>\<open>1 / alpha\<close>, and the row assignment broadcasts.
  The worker pool of \<^verbatim>\<open>parallel=True\<close> evaluates the same function per grid point
  and is not modelled.
\<close>

fun confseq_mtx ::
  "(real \<Rightarrow> pyerror + npfloat list) \<Rightarrow> real \<Rightarrow> nat \<Rightarrow> real list \<Rightarrow> pyerror + bool list list" where
  "confseq_mtx mart alpha n [] = Inr []"
| "confseq_mtx mart alpha n (m # ms) =
     (case mart m of
        Inl e \<Rightarrow> Inl e
      | Inr v \<Rightarrow>
          if alpha = 0 then Inl ZeroDivisionError
          else
            (case broadcast_to n (map (\<lambda>c. fle c (Fin (1 / alpha))) v) of
               Inl e \<Rightarrow> Inl e
             | Inr row \<Rightarrow>
                 (case confseq_mtx mart alpha n ms of
                    Inl e \<Rightarrow> Inl e
                  | Inr rows \<Rightarrow> Inr (row # rows))))"

text \<open>
  Column \<open>j\<close>: \<^verbatim>\<open>where_in_cs = np.where(confseq_mtx[:, j])\<close>; NaN for an empty
  region, else the first and the last grid point in it.
\<close>

definition where_in_cs :: "bool list list \<Rightarrow> nat \<Rightarrow> nat list" where
  "where_in_cs mtx j = filter (\<lambda>i. mtx ! i ! j) [0..<length mtx]"

definition region_bounds :: "real list \<Rightarrow> bool list list \<Rightarrow> nat \<Rightarrow> npfloat \<times> npfloat" where
  "region_bounds grid mtx j =
     (case where_in_cs mtx j of
        [] \<Rightarrow> (NaN, NaN)
      | i # is \<Rightarrow> (Fin (grid ! i), Fin (grid ! last (i # is))))"

definition logical_cs :: "real list \<Rightarrow> int \<Rightarrow> npfloat list \<times> npfloat list" where
  "logical_cs x N =
     (let S_t = cumsum (map Fin x) in
      (map (\<lambda>s. fdiv s (Fin (real_of_int N))) S_t,
       map2 (\<lambda>t s. fsub (Fin 1) (fdiv (fsub (Fin (real t)) s) (Fin (real_of_int N))))
         (arange1 (length x)) S_t))"

definition cs_from_martingale ::
  "real list \<Rightarrow> (real list \<Rightarrow> real \<Rightarrow> pyerror + npfloat list) \<Rightarrow> nat \<Rightarrow> real \<Rightarrow> int option
     \<Rightarrow> bool \<Rightarrow> pyerror + (npfloat list \<times> npfloat list)" where
  "cs_from_martingale x mart_fn breaks alpha N running_intersection =
     (if breaks = 0 then Inl ZeroDivisionError
      else
        case confseq_mtx (mart_fn x) alpha (length x) (possible_m breaks) of
          Inl e \<Rightarrow> Inl e
        | Inr mtx \<Rightarrow>
            let lu = map (region_bounds (possible_m breaks) mtx) [0..<length x];
                l0 = map (\<lambda>b. fmaximum (Fin 0) (fsub (fst b) (Fin (1 / real breaks)))) lu;
                u0 = map (\<lambda>b. fminimum (Fin 1) (fadd (snd b) (Fin (1 / real breaks)))) lu;
                l1 = (case N of None \<Rightarrow> l0
                      | Some N' \<Rightarrow> map2 fmaximum l0 (fst (logical_cs x N')));
                u1 = (case N of None \<Rightarrow> u0
                      | Some N' \<Rightarrow> map2 fminimum u0 (snd (logical_cs x N')))
            in Inr (if running_intersection
                    then (accumulate fmaximum l1, accumulate fminimum u1)
                    else (l1, u1)))"

text \<open>
  \<^verbatim>\<open>betting_cs\<close> takes one generator (or \<^verbatim>\<open>None\<close>) or a list of them for each
  side; \<^verbatim>\<open>np.shape(f) == ()\<close> wraps a single one in a list.
\<close>

datatype fns_arg = Single "bets_fn option" | Family "bets_fn option list"

fun as_family :: "fns_arg \<Rightarrow> bets_fn option list" where
  "as_family (Single f) = [f]"
| "as_family (Family fs) = fs"

definition betting_cs ::
  "real list \<Rightarrow> fns_arg \<Rightarrow> fns_arg \<Rightarrow> real \<Rightarrow> int option \<Rightarrow> nat \<Rightarrow> bool
     \<Rightarrow> bool \<Rightarrow> real \<Rightarrow> real \<Rightarrow> bool \<Rightarrow> pyerror + (npfloat list \<times> npfloat list)" where
  "betting_cs x lambdas_fns_positive lambdas_fns_negative alpha N breaks running_intersection
       convex_comb theta trunc_scale m_trunc =
     (let fns_negative =
            (case lambdas_fns_negative of Single None \<Rightarrow> lambdas_fns_positive | g \<Rightarrow> g);
          fps = as_family lambdas_fns_positive;
          fns = as_family fns_negative
      in
      if length fps \<noteq> length fns then Inl AssertLen
      else
        cs_from_martingale x
          (\<lambda>x m. diversified_betting_mart x m fps (Some fns) None alpha N
                   convex_comb theta trunc_scale m_trunc)
          breaks alpha N running_intersection)"

section \<open>Notions used in the proofs\<close>

text \<open>
  The share \<open>r\<close> of a capital value that the diversified sum holds after some of its
  summands: \<open>r\<close> times a finite value, and an infinity as soon as \<open>r\<close> is not zero.
\<close>

definition part :: "real \<Rightarrow> npfloat \<Rightarrow> npfloat" where
  "part r c = (case c of Fin v \<Rightarrow> Fin (r * v) | _ \<Rightarrow> if r = 0 then Fin 0 else c)"

text \<open>
  The effective null mean as a real number: the candidate itself with replacement,
  \<open>(N m - S\<^bsub>i\<^esub>) / (N - i)\<close> at the (0-based) position \<open>i\<close> without, \<open>S\<^bsub>i\<^esub>\<close> the sum of the
  first \<open>i\<close> observations.
\<close>

definition mu_real :: "real list \<Rightarrow> real \<Rightarrow> int option \<Rightarrow> nat \<Rightarrow> real" where
  "mu_real x m N i =
     (case N of None \<Rightarrow> m
      | Some N' \<Rightarrow> (real_of_int N' * m - sum_list (take i x)) / (real_of_int N' - real i))"

text \<open>The population, when there is one, is at least as large as the sample.\<close>

definition population_covers :: "int option \<Rightarrow> nat \<Rightarrow> bool" where
  "population_covers N n = (case N of None \<Rightarrow> True | Some N' \<Rightarrow> int n \<le> N')"

definition nonneg_or_nan :: "npfloat \<Rightarrow> bool" where
  "nonneg_or_nan c = (case c of Fin v \<Rightarrow> 0 \<le> v | NaN \<Rightarrow> True | _ \<Rightarrow> False)"

text \<open>
  One bet of \<^verbatim>\<open>lambda_predmix_eb\<close>, from the position \<open>t\<close> (counted from 1) and the
  entry of \<^verbatim>\<open>sigma2_tminus1\<close> there.
\<close>

definition bet_of ::
  "npfloat \<Rightarrow> real \<Rightarrow> real option \<Rightarrow> real \<Rightarrow> nat \<Rightarrow> npfloat \<Rightarrow> bool \<Rightarrow> npfloat" where
  "bet_of T alpha fixed_n s t s2 z =
     fmul (fminimum T (nan_to 0 (fsqrt (fdiv_by_product (fmul (Fin 2) (flog (Fin (1 / alpha))))
        (case fixed_n of None \<Rightarrow> real t * ln (1 + real t) | Some n \<Rightarrow> n) s2 z))))
       (Fin s)"

text \<open>
  A lower bound \<open>a'\<close> is at least as tight as \<open>a\<close> (or undefined), and likewise an upper
  bound \<open>b'\<close> against \<open>b\<close>.
\<close>

definition lo_rel :: "npfloat \<Rightarrow> npfloat \<Rightarrow> bool" where
  "lo_rel a' a = (isnan a' \<or> fle a a')"

definition hi_rel :: "npfloat \<Rightarrow> npfloat \<Rightarrow> bool" where
  "hi_rel b' b = (isnan b' \<or> fle b' b)"

section \<open>Arrays: lengths and scans\<close>

lemma length_cum [simp]: "length (cum f a vs) = length vs"
  by (induction vs arbitrary: a) auto

lemma length_accumulate [simp]: "length (accumulate f vs) = length vs"
  by (cases vs) (auto simp: accumulate_def)

lemma length_cumsum [simp]: "length (cumsum vs) = length vs"
  by (simp add: cumsum_def)

lemma length_cumprod [simp]: "length (cumprod vs) = length vs"
  by (simp add: cumprod_def)

lemma length_arange1 [simp]: "length (arange1 n) = n"
  by (simp add: arange1_def)







lemma bc2_same_length: "length vs = length ws \<Longrightarrow> bc2 f vs ws = Inr (map2 f vs ws)"
  by (simp add: bc2_def)

lemma fmaximum_NaN [simp]: "fmaximum NaN v = NaN" "fmaximum v NaN = NaN"
  by (simp_all add: fmaximum_def)

lemma fminimum_NaN [simp]: "fminimum NaN v = NaN" "fminimum v NaN = NaN"
  by (simp_all add: fminimum_def)

text \<open>A scan with a NaN-propagating operation stays NaN from the first NaN on.\<close>

lemma cum_from_NaN:
  assumes "\<And>v. f NaN v = NaN"
  shows "s < length vs \<Longrightarrow> cum f NaN vs ! s = NaN"
  by (induction vs arbitrary: s) (auto simp: assms nth_Cons')

lemma cum_NaN_persists:
  assumes "\<And>v. f NaN v = NaN" "\<And>v. f v NaN = NaN"
  shows "t < length vs \<Longrightarrow> vs ! t = NaN \<Longrightarrow> t \<le> s \<Longrightarrow> s < length vs
           \<Longrightarrow> cum f a vs ! s = NaN"
proof (induction vs arbitrary: a t s)
  case Nil
  then show ?case by simp
next
  case (Cons v vs)
  show ?case
  proof (cases t)
    case 0
    with Cons.prems have "v = NaN" by simp
    then show ?thesis
      using Cons.prems cum_from_NaN[of f "s - 1" vs] by (cases s) (auto simp: assms)
  next
    case (Suc t')
    with Cons.prems obtain s' where "s = Suc s'" by (cases s) auto
    with Suc Cons.prems Cons.IH[of t' s'] show ?thesis by auto
  qed
qed

lemma accumulate_NaN_persists:
  assumes "\<And>v. f NaN v = NaN" "\<And>v. f v NaN = NaN"
    and "t < length vs" "vs ! t = NaN" "t \<le> s" "s < length vs"
  shows "accumulate f vs ! s = NaN"
proof (cases vs)
  case Nil
  with assms show ?thesis by simp
next
  case (Cons v ws)
  show ?thesis
  proof (cases s)
    case 0
    with assms Cons show ?thesis by (simp add: accumulate_def)
  next
    case (Suc s')
    show ?thesis
    proof (cases t)
      case 0
      with assms Cons have "v = NaN" by simp
      with Cons Suc assms(1,6) cum_from_NaN[of f s' ws] show ?thesis
        by (simp add: accumulate_def)
    next
      case (Suc t')
      with Cons \<open>s = Suc s'\<close> assms cum_NaN_persists[of f t' ws s' v] show ?thesis
        by (simp add: accumulate_def)
    qed
  qed
qed

lemma length_logical_cs [simp]:
  "length (fst (logical_cs x N)) = length x" "length (snd (logical_cs x N)) = length x"
  by (simp_all add: logical_cs_def Let_def)

section \<open>The Hoeffding confidence sequence with zero bets\<close>



section \<open>An empty region under the running intersection\<close>

text \<open>
  C10. In \<^verbatim>\<open>cs_from_martingale\<close> with the running intersection, when no grid
  point is in the region at time \<open>t\<close> (the column of the indicator matrix has no
  true entry, so \<open>l\<^sub>t = u\<^sub>t = NaN\<close>), \<open>l\<^sub>s\<close> and \<open>u\<^sub>s\<close> are NaN at every later time \<open>s\<close>
  as well, whatever the region is there and with or without a population size.
\<close>

theorem empty_region_nan_persists:
  assumes res: "cs_from_martingale x mart_fn breaks alpha N True = Inr (l, u)"
    and mtx: "confseq_mtx (mart_fn x) alpha (length x) (possible_m breaks) = Inr mtx"
    and empty: "where_in_cs mtx t = []"
    and t: "t < length x" and s: "t \<le> s" "s < length x"
  shows "l ! s = NaN \<and> u ! s = NaN"
proof -
  define lu where "lu = map (region_bounds (possible_m breaks) mtx) [0..<length x]"
  define l0 where "l0 = map (\<lambda>b. fmaximum (Fin 0) (fsub (fst b) (Fin (1 / real breaks)))) lu"
  define u0 where "u0 = map (\<lambda>b. fminimum (Fin 1) (fadd (snd b) (Fin (1 / real breaks)))) lu"
  define l1 where
    "l1 = (case N of None \<Rightarrow> l0 | Some N' \<Rightarrow> map2 fmaximum l0 (fst (logical_cs x N')))"
  define u1 where
    "u1 = (case N of None \<Rightarrow> u0 | Some N' \<Rightarrow> map2 fminimum u0 (snd (logical_cs x N')))"
  have len: "length l1 = length x" "length u1 = length x"
    by (auto simp: l1_def u1_def l0_def u0_def lu_def split: option.splits)
  have "lu ! t = (NaN, NaN)"
    using t empty by (simp add: lu_def region_bounds_def)
  then have "l0 ! t = NaN" "u0 ! t = NaN"
    using t by (simp_all add: l0_def u0_def lu_def fsub_def)
  then have nan: "l1 ! t = NaN" "u1 ! t = NaN"
    using t by (auto simp: l1_def u1_def l0_def u0_def lu_def split: option.splits)
  from res mtx have "l = accumulate fmaximum l1" "u = accumulate fminimum u1"
    by (auto simp: cs_from_martingale_def Let_def l1_def u1_def l0_def u0_def lu_def
        split: if_splits option.splits)
  then show ?thesis
    using accumulate_NaN_persists[of fmaximum t l1 s] accumulate_NaN_persists[of fminimum t u1 s]
      nan len t s by simp
qed

text \<open>
  A martingale that is \<open>+\<infinity>\<close> at time 1 and 0 at time 2 for every candidate: the region
  is empty at time 1, the whole grid at time 2, and both bounds are NaN at both times.
\<close>

theorem empty_region_nan_persists_witness:
  "cs_from_martingale [1 / 2, 1 / 2] (\<lambda>x m. Inr [PInf, Fin 0]) 1 (1 / 2) None True
     = Inr ([NaN, NaN], [NaN, NaN])
   \<and> where_in_cs [[False, True], [False, True]] 0 = []
   \<and> where_in_cs [[False, True], [False, True]] 1 = [0, 1]
   \<and> [NaN, NaN] ! 1 = NaN"
proof -
  have res: "cs_from_martingale [1 / 2, 1 / 2] (\<lambda>x m. Inr [PInf, Fin 0]) 1 (1 / 2) None True
      = Inr ([NaN, NaN], [NaN, NaN])"
    by (simp add: cs_from_martingale_def possible_m_def broadcast_to_def region_bounds_def
        where_in_cs_def accumulate_def fsub_def)
  have mtx: "confseq_mtx ((\<lambda>x m. Inr [PInf, Fin 0]) [1 / 2, 1 / 2 :: real]) (1 / 2)
      (length [1 / 2, 1 / 2 :: real]) (possible_m 1) = Inr [[False, True], [False, True]]"
    by (simp add: possible_m_def broadcast_to_def)
  have empty: "where_in_cs [[False, True], [False, True]] 0 = []"
    by (simp add: where_in_cs_def)
  have later: "where_in_cs [[False, True], [False, True]] 1 = [0, 1]"
    by (simp add: where_in_cs_def)
  from empty_region_nan_persists[OF res mtx empty, of 1] res empty later
  show ?thesis
    by simp
qed

section \<open>What betting_mart returns\<close>

lemma broadcast_to_length: "broadcast_to n vs = Inr ws \<Longrightarrow> length ws = n"
  by (auto simp: broadcast_to_def split: if_splits)

lemma length_stretch [simp]: "length (stretch n vs) = n"
  by (simp add: stretch_def)

lemma stretch_broadcast: "broadcast_to n vs = Inr ws \<Longrightarrow> stretch n vs = ws"
  by (auto simp: broadcast_to_def stretch_def split: if_splits)

lemma bets_shape_broadcast:
  assumes "broadcast_to n vs = Inr ws" "broadcast_to n vs' = Inr ws'"
  shows "bets_shape_error n theta (length vs) (length vs') = None"
  using assms
  by (auto simp: broadcast_to_def bets_shape_error_def bshape_def split: if_splits)

lemma length_null_means [simp]: "length (null_means x m N) = length x"
  by (auto simp: null_means_def mu_t_def split: option.splits)

lemma length_capital_process:
  "length lp = length x \<Longrightarrow> length lq = length x \<Longrightarrow>
   length (capital_process x m N cc theta ts mt lp lq) = length x"
  by (simp add: capital_process_def Let_def capital_process_positive_def
      capital_process_negative_def)

lemma betting_mart_InrD:
  assumes "betting_mart x m alpha fp fn N cc theta ts mt = Inr M"
  shows "\<exists>lp0 lq0. fn_positive alpha fp x m = Inr lp0 \<and> fn_negative alpha fp fn x m = Inr lq0
     \<and> bets_shape_error (length x) theta (length lp0) (length lq0) = None
     \<and> \<not> population_overflow N
     \<and> M = capital_process x m N cc theta ts mt (stretch (length x) lp0) (stretch (length x) lq0)
     \<and> \<not> list_ex (\<lambda>c. flt c (Fin 0)) M \<and> \<not> list_ex isnan M"
  using assms
  by (auto simp: betting_mart_def Let_def split: sum.splits option.splits if_splits)

text \<open>The closing assertions leave finite non-negative values and \<open>+\<infinity>\<close> only.\<close>

lemma betting_mart_Inr:
  assumes "betting_mart x m alpha fp fn N cc theta ts mt = Inr M"
  shows "length M = length x" and "\<forall>c\<in>set M. c = PInf \<or> (\<exists>v\<ge>0. c = Fin v)"
proof -
  from betting_mart_InrD[OF assms] obtain lp0 lq0 where
    M0: "M = capital_process x m N cc theta ts mt (stretch (length x) lp0) (stretch (length x) lq0)"
    and nn: "\<not> list_ex (\<lambda>c. flt c (Fin 0)) M" and nan: "\<not> list_ex isnan M"
    by blast
  define lp where "lp = stretch (length x) lp0"
  define lq where "lq = stretch (length x) lq0"
  have lp: "length lp = length x" and lq: "length lq = length x"
    and M: "M = capital_process x m N cc theta ts mt lp lq"
    using M0 by (simp_all add: lp_def lq_def)
  show "length M = length x"
    using lp lq M by (simp add: length_capital_process)
  show "\<forall>c\<in>set M. c = PInf \<or> (\<exists>v\<ge>0. c = Fin v)"
  proof
    fix c
    assume c: "c \<in> set M"
    with nn nan have "\<not> flt c (Fin 0)" "\<not> isnan c"
      by (auto simp: list_ex_iff)
    then show "c = PInf \<or> (\<exists>v\<ge>0. c = Fin v)"
      by (cases c) auto
  qed
qed

section \<open>The diversified martingale of one repeated pair\<close>

lemma part_step:
  assumes "c = PInf \<or> (\<exists>v\<ge>0. c = Fin v)" "0 \<le> r" "0 < w"
  shows "fadd (part r c) (fmul (Fin w) c) = part (r + w) c"
  using assms by (auto simp: part_def algebra_simps)

lemma diversified_loop_same:
  assumes good: "\<forall>c\<in>set M. c = PInf \<or> (\<exists>v\<ge>0. c = Fin v)"
    and marts: "\<forall>k\<in>set ks. marts k = Inr M \<and> k < length w \<and> w ! k = d"
    and d: "0 < d" and r: "0 \<le> r"
  shows "diversified_loop marts w ks (map (part r) M)
         = Inr (map (part (r + real (length ks) * d)) M)"
  using marts r
proof (induction ks arbitrary: r)
  case Nil
  then show ?case by simp
next
  case (Cons k ks)
  have step: "map2 fadd (map (part r) M) (map (fmul (Fin d)) M) = map (part (r + d)) M"
    using good Cons.prems(2) d by (induction M) (auto simp: part_step)
  have "0 \<le> r + d"
    using Cons.prems d by simp
  from Cons.IH[OF _ this] Cons.prems step show ?case
    by (simp add: algebra_simps)
qed

text \<open>
  C8. For every stream, candidate mean and parameter setting,
  \<^verbatim>\<open>diversified_betting_mart\<close> called with \<open>K \<ge> 1\<close> copies of one generator pair and
  uniform weights \<open>1/K\<close> (left to the default or passed explicitly) returns what
  \<^verbatim>\<open>betting_mart\<close> returns for that pair and the same parameters: the same array, or
  the same error.
\<close>

theorem diversified_identical_family:
  assumes K: "0 < K"
    and w: "weights = None \<or> weights = Some (replicate K (1 / real K))"
  shows "diversified_betting_mart x m (replicate K fp) (Some (replicate K fn)) weights
           alpha N cc theta ts mt
         = betting_mart x m alpha fp fn N cc theta ts mt"
proof (cases "betting_mart x m alpha fp fn N cc theta ts mt")
  case (Inl e)
  have "[0..<K] = 0 # [1..<K]"
    using K by (simp add: upt_conv_Cons)
  with Inl w K show ?thesis
    by (auto simp: diversified_betting_mart_def Let_def)
next
  case (Inr M)
  note good = betting_mart_Inr[OF Inr]
  have zero: "replicate (length x) (Fin 0) = map (part 0) M"
    using good
    by (auto simp: part_def split: npfloat.splits intro!: nth_equalityI)
  have one: "map (part 1) M = M"
    by (auto simp: part_def split: npfloat.splits intro!: nth_equalityI)
  have "diversified_loop
          (\<lambda>k. betting_mart x m alpha (replicate K fp ! k) (replicate K fn ! k) N cc theta ts mt)
          (replicate K (1 / real K)) [0..<K] (map (part 0) M)
        = Inr (map (part (0 + real (length [0..<K]) * (1 / real K))) M)"
    by (rule diversified_loop_same[OF good(2)]) (use K Inr in auto)
  with K one zero Inr w show ?thesis
    by (auto simp: diversified_betting_mart_def Let_def)
qed

lemmas betting_mart_eval =
  betting_mart_def population_overflow_def int64_overflow_def fn_positive_def fn_negative_def
  bets_shape_error_def bshape_def stretch_def broadcast_to_def capital_process_def null_means_def
  truncate_positive_def truncate_negative_def upper_trunc_def lower_trunc_def inf_to_1000_def
  capital_process_positive_def capital_process_negative_def cumprod_def accumulate_def
  positive_factor_def negative_factor_def combine_def mask_def masked_def
  fmaximum_def fminimum_def fsub_def Let_def

text \<open>
  Two copies of a generator that always bets 1, on the stream \<open>[1]\<close> and the candidate
  \<open>1/2\<close>: both calls return \<open>max(1/2 \<sqdot> 3/2, 1/2 \<sqdot> 1/2) = 3/4\<close>.
\<close>

theorem diversified_identical_family_witness:
  "(0::nat) < 2
   \<and> diversified_betting_mart [1] (1 / 2)
        (replicate 2 (Some (\<lambda>x m. Inr (map (\<lambda>_. Fin 1) x)))) (Some (replicate 2 None))
        (Some (replicate 2 (1 / real 2))) (1 / 20) None False (1 / 2) (1 / 2) True
      = Inr [Fin (3 / 4)]"
proof -
  have K: "(0::nat) < 2"
    by simp
  have bm: "betting_mart [1] (1 / 2) (1 / 20) (Some (\<lambda>x m. Inr (map (\<lambda>_. Fin 1) x))) None
      None False (1 / 2) (1 / 2) True = Inr [Fin (3 / 4)]"
    by (simp add: betting_mart_eval)
  from diversified_identical_family[OF K, of "Some (replicate 2 (1 / real 2))" "[1]" "1 / 2"
      "Some (\<lambda>x m. Inr (map (\<lambda>_. Fin 1) x))" None "1 / 20" None False "1 / 2" "1 / 2" True] bm K
  show ?thesis
    by simp
qed

section \<open>The effective null mean\<close>

lemma cum_fadd_Fin: "cum fadd (Fin a) (map Fin xs) = map Fin (cum (+) a xs)"
  by (induction xs arbitrary: a) auto

lemma cumsum_Fin: "cumsum (map Fin xs) = map Fin (accumulate (+) xs)"
  by (cases xs) (auto simp: cumsum_def accumulate_def cum_fadd_Fin)

lemma cum_plus_nth: "i < length xs \<Longrightarrow> cum (+) a xs ! i = a + sum_list (take (Suc i) (xs::real list))"
  by (induction xs arbitrary: a i) (auto simp: nth_Cons' algebra_simps)

lemma accumulate_plus_nth:
  "i < length xs \<Longrightarrow> accumulate (+) xs ! i = sum_list (take (Suc i) (xs::real list))"
  by (cases xs) (auto simp: accumulate_def nth_Cons' cum_plus_nth)

lemma cumsum_Fin_nth:
  "i < length xs \<Longrightarrow> cumsum (map Fin xs) ! i = Fin (sum_list (take (Suc i) xs))"
  by (simp add: cumsum_Fin accumulate_plus_nth)

lemma S_tminus1_nth:
  "i < length x \<Longrightarrow> (Fin 0 # take (length x - Suc 0) (cumsum (map Fin x))) ! i = Fin (sum_list (take i x))"
  by (cases i) (auto simp: cumsum_Fin_nth)

lemma arange1_nth: "i < n \<Longrightarrow> arange1 n ! i = Suc i"
  by (simp add: arange1_def del: upt_Suc)

lemma wrap64_id: "- (2 ^ 63) \<le> i \<Longrightarrow> i < 2 ^ 63 \<Longrightarrow> wrap64 i = i"
  by (simp add: wrap64_def)

lemma mu_t_nth:
  assumes "i < length x" "- (2 ^ 63) \<le> N - int i" "N - int i < 2 ^ 63"
  shows "mu_t x m N ! i
         = fdiv (Fin (real_of_int N * m - sum_list (take i x))) (Fin (real_of_int N - real i))"
proof -
  have "mu_t x m N ! i = fdiv (fsub (Fin (real_of_int N * m)) (Fin (sum_list (take i x))))
      (Fin (real_of_int (wrap64 (N - (int (Suc i) - 1)))))"
    using assms(1) by (simp add: mu_t_def S_tminus1_nth arange1_nth del: fdiv.simps)
  also have "wrap64 (N - (int (Suc i) - 1)) = N - int i"
    using wrap64_id[OF assms(2,3)] by simp
  finally show ?thesis by (simp add: fsub_def del: fdiv.simps)
qed

lemma null_means_nth:
  assumes "i < length x" "population_covers N (length x)" "\<not> population_overflow N"
  shows "null_means x m N ! i = Fin (mu_real x m N i)"
proof (cases N)
  case None
  with assms show ?thesis by (simp add: null_means_def mu_real_def)
next
  case (Some N')
  with assms have "- (2 ^ 63) \<le> N' - int i \<and> N' - int i < 2 ^ 63"
    by (auto simp: population_covers_def population_overflow_def int64_overflow_def)
  moreover from Some assms have "real_of_int N' - real i \<noteq> 0"
    by (auto simp: population_covers_def)
  ultimately show ?thesis
    using mu_t_nth[OF assms(1), of N' m] Some by (simp add: null_means_def mu_real_def)
qed

lemma mu_real_masked_step:
  assumes x: "\<forall>v\<in>set x. 0 \<le> v \<and> v \<le> 1"
    and N: "population_covers N (length x)"
    and i: "Suc i < length x"
    and out: "mu_real x m N i \<le> 0 \<or> 1 \<le> mu_real x m N i"
  shows "mu_real x m N (Suc i) \<le> 0 \<or> 1 \<le> mu_real x m N (Suc i)"
proof (cases N)
  case None
  with out show ?thesis by (simp add: mu_real_def)
next
  case (Some N')
  with N i have d: "0 < real_of_int N' - real i" "0 < real_of_int N' - real (Suc i)"
    by (auto simp: population_covers_def)
  have xi: "0 \<le> x ! i" "x ! i \<le> 1" using x i by (auto simp: all_set_conv_all_nth)
  have S: "sum_list (take (Suc i) x) = sum_list (take i x) + x ! i"
    using i by (simp add: take_Suc_conv_app_nth)
  from out show ?thesis
  proof
    assume "mu_real x m N i \<le> 0"
    then have "real_of_int N' * m - sum_list (take i x) \<le> 0"
      using d Some by (simp add: mu_real_def divide_le_0_iff)
    then have "real_of_int N' * m - sum_list (take (Suc i) x) \<le> 0" using S xi by simp
    then show ?thesis using d Some by (simp add: mu_real_def divide_le_0_iff)
  next
    assume "1 \<le> mu_real x m N i"
    then have "real_of_int N' - real i \<le> real_of_int N' * m - sum_list (take i x)"
      using d Some by (simp add: mu_real_def le_divide_eq)
    then have "real_of_int N' - real (Suc i) \<le> real_of_int N' * m - sum_list (take (Suc i) x)"
      using S xi by simp
    then have "1 \<le> mu_real x m N (Suc i)" using d(2) Some
      by (simp add: mu_real_def le_divide_eq)
    then show ?thesis ..
  qed
qed

lemma mu_real_masked_mono:
  assumes x: "\<forall>v\<in>set x. 0 \<le> v \<and> v \<le> 1"
    and N: "population_covers N (length x)"
    and out: "mu_real x m N i \<le> 0 \<or> 1 \<le> mu_real x m N i"
  shows "i \<le> j \<Longrightarrow> j < length x \<Longrightarrow> mu_real x m N j \<le> 0 \<or> 1 \<le> mu_real x m N j"
proof (induction j)
  case 0
  with out show ?case by simp
next
  case (Suc j)
  show ?case
  proof (cases "i = Suc j")
    case True with out show ?thesis by simp
  next
    case False
    with Suc have "mu_real x m N j \<le> 0 \<or> 1 \<le> mu_real x m N j" by simp
    from mu_real_masked_step[OF x N Suc.prems(2) this] show ?thesis .
  qed
qed

section \<open>Truncated bets and the factors of the capital processes\<close>

lemma clip_cases:
  "fminimum (Fin U) (fmaximum (Fin A) l) = NaN
   \<or> (\<exists>v. fminimum (Fin U) (fmaximum (Fin A) l) = Fin v \<and> v \<le> U \<and> (A \<le> U \<longrightarrow> A \<le> v))"
  by (cases l) (auto simp: fmaximum_def fminimum_def)

lemma upper_trunc_Fin:
  assumes "0 < ts"
  shows "upper_trunc ts mt (Fin mu) = Fin (if mt then (if mu = 0 then 1000 else ts / mu) else ts)"
  using assms by (simp add: upper_trunc_def inf_to_1000_def)

lemma lower_trunc_Fin:
  assumes "0 < ts"
  shows "lower_trunc ts mt (Fin mu) = Fin (if mt then (if mu = 1 then 1000 else ts / (1 - mu)) else ts)"
  using assms by (simp add: lower_trunc_def inf_to_1000_def fsub_def)

lemma factor_bound:
  fixes l :: real
  assumes "- L \<le> l" "l \<le> U" "U * mu \<le> 1" "L * (1 - mu) \<le> 1" "0 \<le> L" "0 \<le> U"
    "0 \<le> v" "v \<le> 1" "0 < mu" "mu < 1"
  shows "0 \<le> 1 + l * (v - mu)"
proof (cases "mu \<le> v")
  case True
  have "- L * (v - mu) \<le> l * (v - mu)"
    using assms True by (intro mult_right_mono) auto
  moreover have "L * (v - mu) \<le> L * (1 - mu)"
    using assms by (intro mult_left_mono) auto
  ultimately show ?thesis using assms by simp
next
  case False
  have "l * (mu - v) \<le> U * (mu - v)"
    using assms False by (intro mult_right_mono) auto
  moreover have "U * (mu - v) \<le> U * mu"
    using assms by (intro mult_left_mono) auto
  ultimately have "l * (mu - v) \<le> 1" using assms by linarith
  then show ?thesis by (simp add: algebra_simps)
qed

lemma trunc_bounds:
  fixes ts mu :: real
  assumes "0 < ts" "ts \<le> 1" "0 < mu" "mu < 1"
    and U: "U = (if mt then (if mu = 0 then 1000 else ts / mu) else ts)"
    and L: "L = (if mt then (if mu = 1 then 1000 else ts / (1 - mu)) else ts)"
  shows "0 \<le> U" "0 \<le> L" "U * mu \<le> 1" "L * (1 - mu) \<le> 1"
proof -
  show "0 \<le> U" "0 \<le> L" using assms by auto
  have "ts * mu \<le> 1 * 1" using assms by (intro mult_mono) auto
  then show "U * mu \<le> 1" using assms by auto
  have "ts * (1 - mu) \<le> 1 * 1" using assms by (intro mult_mono) auto
  then show "L * (1 - mu) \<le> 1" using assms by auto
qed

lemma positive_factor_nonneg:
  assumes "0 < ts" "ts \<le> 1" "0 < mu" "mu < 1" "0 \<le> v" "v \<le> 1"
  shows "nonneg_or_nan (positive_factor (truncate_positive ts mt (Fin mu) l) v (Fin mu))"
proof -
  define U where "U = (if mt then (if mu = 0 then 1000 else ts / mu) else ts)"
  define L where "L = (if mt then (if mu = 1 then 1000 else ts / (1 - mu)) else ts)"
  note b = trunc_bounds[OF assms(1-4) U_def L_def]
  have tp: "truncate_positive ts mt (Fin mu) l = fminimum (Fin U) (fmaximum (Fin (- L)) l)"
    by (simp add: truncate_positive_def upper_trunc_Fin[OF assms(1)] lower_trunc_Fin[OF assms(1)]
        U_def L_def)
  from clip_cases[of U "- L" l] show ?thesis
  proof
    assume "fminimum (Fin U) (fmaximum (Fin (- L)) l) = NaN"
    then show ?thesis by (simp add: tp positive_factor_def nonneg_or_nan_def fsub_def)
  next
    assume "\<exists>w. fminimum (Fin U) (fmaximum (Fin (- L)) l) = Fin w \<and> w \<le> U \<and> (- L \<le> U \<longrightarrow> - L \<le> w)"
    then obtain w where w: "fminimum (Fin U) (fmaximum (Fin (- L)) l) = Fin w" "w \<le> U" "- L \<le> w"
      using b by auto
    from factor_bound[OF w(3) w(2) b(3) b(4) b(2) b(1) assms(5,6,3,4)]
    show ?thesis by (simp add: tp w positive_factor_def nonneg_or_nan_def fsub_def)
  qed
qed

lemma negative_factor_nonneg:
  assumes "0 < ts" "ts \<le> 1" "0 < mu" "mu < 1" "0 \<le> v" "v \<le> 1"
  shows "nonneg_or_nan (negative_factor (truncate_negative ts mt (Fin mu) l) v (Fin mu))"
proof -
  define U where "U = (if mt then (if mu = 0 then 1000 else ts / mu) else ts)"
  define L where "L = (if mt then (if mu = 1 then 1000 else ts / (1 - mu)) else ts)"
  note b = trunc_bounds[OF assms(1-4) U_def L_def]
  have tp: "truncate_negative ts mt (Fin mu) l = fminimum (Fin L) (fmaximum (Fin (- U)) l)"
    by (simp add: truncate_negative_def upper_trunc_Fin[OF assms(1)] lower_trunc_Fin[OF assms(1)]
        U_def L_def)
  from clip_cases[of L "- U" l] show ?thesis
  proof
    assume "fminimum (Fin L) (fmaximum (Fin (- U)) l) = NaN"
    then show ?thesis by (simp add: tp negative_factor_def nonneg_or_nan_def fsub_def)
  next
    assume "\<exists>w. fminimum (Fin L) (fmaximum (Fin (- U)) l) = Fin w \<and> w \<le> L \<and> (- U \<le> L \<longrightarrow> - U \<le> w)"
    then obtain w where w: "fminimum (Fin L) (fmaximum (Fin (- U)) l) = Fin w" "w \<le> L" "- U \<le> w"
      using b by auto
    have "- L \<le> - w" "- w \<le> U" using w by auto
    from factor_bound[OF this b(3) b(4) b(2) b(1) assms(5,6,3,4)]
    show ?thesis by (simp add: tp w negative_factor_def nonneg_or_nan_def fsub_def)
  qed
qed

lemma fmul_nonneg_or_nan: "nonneg_or_nan a \<Longrightarrow> nonneg_or_nan b \<Longrightarrow> nonneg_or_nan (fmul a b)"
  by (cases a; cases b) (auto simp: nonneg_or_nan_def)

lemma cum_prefix_pred:
  assumes "\<And>a b. P a \<Longrightarrow> P b \<Longrightarrow> P (f a b)"
  shows "P a \<Longrightarrow> i < length vs \<Longrightarrow> \<forall>j\<le>i. P (vs ! j) \<Longrightarrow> P (cum f a vs ! i)"
proof (induction vs arbitrary: a i)
  case Nil then show ?case by simp
next
  case (Cons v vs)
  have Pv: "P v" using Cons.prems(3) by (auto dest: spec[of _ 0])
  show ?case
  proof (cases i)
    case 0 with Cons.prems Pv assms show ?thesis by simp
  next
    case (Suc i')
    have "\<forall>j\<le>i'. P (vs ! j)" using Cons.prems(3) Suc by (auto dest: spec[of _ "Suc _"])
    with Cons.IH[of "f a v" i'] Cons.prems Suc Pv assms show ?thesis by simp
  qed
qed

lemma accumulate_prefix_pred:
  assumes "\<And>a b. P a \<Longrightarrow> P b \<Longrightarrow> P (f a b)"
    and "i < length vs" "\<forall>j\<le>i. P (vs ! j)"
  shows "P (accumulate f vs ! i)"
proof (cases vs)
  case Nil with assms show ?thesis by simp
next
  case (Cons v ws)
  have Pv: "P v" using assms(3) Cons by (auto dest: spec[of _ 0])
  show ?thesis
  proof (cases i)
    case 0 with Cons Pv show ?thesis by (simp add: accumulate_def)
  next
    case (Suc i')
    have "\<forall>j\<le>i'. P (ws ! j)" using assms(3) Suc Cons by (auto dest: spec[of _ "Suc _"])
    with cum_prefix_pred[of P f v i' ws] assms Cons Suc Pv show ?thesis
      by (simp add: accumulate_def)
  qed
qed

lemma combine_nonneg_or_nan:
  assumes "0 \<le> theta" "theta \<le> 1" "nonneg_or_nan p" "nonneg_or_nan q"
  shows "nonneg_or_nan (combine cc theta p q)"
  using assms by (cases p; cases q) (auto simp: combine_def nonneg_or_nan_def fmaximum_def)

section \<open>Entries of the capital process\<close>

lemma factors_nth:
  assumes "i < length x" "length lp = length x" "length mus = length x"
  shows "map2 (\<lambda>l (v, mu). F l v mu) (map2 T mus lp) (zip x mus) ! i
         = F (T (mus ! i) (lp ! i)) (x ! i) (mus ! i)"
  using assms by simp

lemma capital_process_nth:
  assumes "i < length x" "length lp = length x" "length lq = length x"
  shows "capital_process x m N cc theta ts mt lp lq ! i
         = mask (null_means x m N ! i)
             (combine cc theta
                (capital_process_positive x (null_means x m N)
                   (map2 (truncate_positive ts mt) (null_means x m N) lp) ! i)
                (capital_process_negative x (null_means x m N)
                   (map2 (truncate_negative ts mt) (null_means x m N) lq) ! i))"
  using assms
  by (simp add: capital_process_def Let_def capital_process_positive_def
      capital_process_negative_def)

lemma masked_Fin: "masked (Fin mu) = (mu \<le> 0 \<or> 1 \<le> mu)"
  by (simp add: masked_def)

lemma capital_process_entry_nonneg:
  assumes x: "\<forall>v\<in>set x. 0 \<le> v \<and> v \<le> 1"
    and th: "0 \<le> theta" "theta \<le> 1" and ts: "0 < ts" "ts \<le> 1"
    and N: "population_covers N (length x)" "\<not> population_overflow N"
    and len: "length lp = length x" "length lq = length x"
    and i: "i < length x"
  shows "\<not> flt (capital_process x m N cc theta ts mt lp lq ! i) (Fin 0)"
proof (cases "masked (null_means x m N ! i)")
  case True
  then show ?thesis using i len by (simp add: capital_process_nth mask_def)
next
  case False
  define mus where "mus = null_means x m N"
  have mus: "mus ! j = Fin (mu_real x m N j)" if "j < length x" for j
    using that N by (simp add: mus_def null_means_nth)
  have inside: "0 < mu_real x m N j \<and> mu_real x m N j < 1" if "j \<le> i" for j
  proof (rule ccontr)
    assume "\<not> ?thesis"
    then have "mu_real x m N j \<le> 0 \<or> 1 \<le> mu_real x m N j" by auto
    from mu_real_masked_mono[OF x N(1) this that i] False mus[OF i] show False
      by (simp add: masked_Fin mus_def)
  qed
  have xj: "0 \<le> x ! j \<and> x ! j \<le> 1" if "j \<le> i" for j
    using x that i by (auto simp: all_set_conv_all_nth)
  have lenm: "length mus = length x" by (simp add: mus_def)
  have pos: "nonneg_or_nan (capital_process_positive x mus (map2 (truncate_positive ts mt) mus lp) ! i)"
    unfolding capital_process_positive_def cumprod_def
  proof (rule accumulate_prefix_pred[where P = nonneg_or_nan])
    show "\<And>a b. nonneg_or_nan a \<Longrightarrow> nonneg_or_nan b \<Longrightarrow> nonneg_or_nan (fmul a b)"
      by (rule fmul_nonneg_or_nan)
    show "i < length (map2 (\<lambda>l (v, mu). positive_factor l v mu) (map2 (truncate_positive ts mt) mus lp) (zip x mus))"
      using i len lenm by simp
    show "\<forall>j\<le>i. nonneg_or_nan (map2 (\<lambda>l (v, mu). positive_factor l v mu) (map2 (truncate_positive ts mt) mus lp) (zip x mus) ! j)"
    proof (intro allI impI)
      fix j assume j: "j \<le> i"
      then have jl: "j < length x" using i by simp
      show "nonneg_or_nan (map2 (\<lambda>l (v, mu). positive_factor l v mu) (map2 (truncate_positive ts mt) mus lp) (zip x mus) ! j)"
        unfolding factors_nth[OF jl len(1) lenm] mus[OF jl]
        using positive_factor_nonneg[OF ts] inside[OF j] xj[OF j] by blast
    qed
  qed
  have neg: "nonneg_or_nan (capital_process_negative x mus (map2 (truncate_negative ts mt) mus lq) ! i)"
    unfolding capital_process_negative_def cumprod_def
  proof (rule accumulate_prefix_pred[where P = nonneg_or_nan])
    show "\<And>a b. nonneg_or_nan a \<Longrightarrow> nonneg_or_nan b \<Longrightarrow> nonneg_or_nan (fmul a b)"
      by (rule fmul_nonneg_or_nan)
    show "i < length (map2 (\<lambda>l (v, mu). negative_factor l v mu) (map2 (truncate_negative ts mt) mus lq) (zip x mus))"
      using i len lenm by simp
    show "\<forall>j\<le>i. nonneg_or_nan (map2 (\<lambda>l (v, mu). negative_factor l v mu) (map2 (truncate_negative ts mt) mus lq) (zip x mus) ! j)"
    proof (intro allI impI)
      fix j assume j: "j \<le> i"
      then have jl: "j < length x" using i by simp
      show "nonneg_or_nan (map2 (\<lambda>l (v, mu). negative_factor l v mu) (map2 (truncate_negative ts mt) mus lq) (zip x mus) ! j)"
        unfolding factors_nth[OF jl len(2) lenm] mus[OF jl]
        using negative_factor_nonneg[OF ts] inside[OF j] xj[OF j] by blast
    qed
  qed
  from combine_nonneg_or_nan[OF th pos neg, of cc]
  have "nonneg_or_nan (capital_process x m N cc theta ts mt lp lq ! i)"
    using False i len by (simp add: capital_process_nth mask_def mus_def)
  then show ?thesis
    by (cases "capital_process x m N cc theta ts mt lp lq ! i") (auto simp: nonneg_or_nan_def)
qed

section \<open>Claims about betting_mart\<close>

lemma betting_mart_overflow:
  "population_overflow N \<Longrightarrow> betting_mart x m alpha fp fn N cc theta ts mt = Inl OverflowError"
  by (simp add: betting_mart_def)

lemma betting_mart_run:
  assumes "\<not> population_overflow N"
    "fn_positive alpha fp x m = Inr lp0" "fn_negative alpha fp fn x m = Inr lq0"
    "broadcast_to (length x) lp0 = Inr lp" "broadcast_to (length x) lq0 = Inr lq"
  shows "betting_mart x m alpha fp fn N cc theta ts mt =
        (if list_ex (\<lambda>c. flt c (Fin 0)) (capital_process x m N cc theta ts mt lp lq)
         then Inl AssertNonneg
         else if list_ex isnan (capital_process x m N cc theta ts mt lp lq) then Inl AssertNoNan
         else Inr (capital_process x m N cc theta ts mt lp lq))"
  using assms
  by (simp add: betting_mart_def Let_def stretch_broadcast
      bets_shape_broadcast[where theta = theta and vs = lp0 and vs' = lq0])

lemma betting_mart_assert_nonneg:
  assumes "betting_mart x m alpha fp fn N cc theta ts mt = Inl AssertNonneg"
    "fn_positive alpha fp x m = Inr lp0" "fn_negative alpha fp fn x m = Inr lq0"
  shows "list_ex (\<lambda>c. flt c (Fin 0))
           (capital_process x m N cc theta ts mt (stretch (length x) lp0) (stretch (length x) lq0))
         \<and> \<not> population_overflow N"
  using assms
  by (auto simp: betting_mart_def Let_def bets_shape_error_def split: option.splits if_splits)

lemma betting_mart_InrE:
  assumes "betting_mart x m alpha fp fn N cc theta ts mt = Inr M"
  obtains lp lq where "length lp = length x" "length lq = length x"
    "M = capital_process x m N cc theta ts mt lp lq" "\<not> list_ex isnan M"
proof -
  from betting_mart_InrD[OF assms] obtain lp0 lq0 where
    "M = capital_process x m N cc theta ts mt (stretch (length x) lp0) (stretch (length x) lq0)"
    "\<not> list_ex isnan M"
    by blast
  with that[of "stretch (length x) lp0" "stretch (length x) lq0"] show ?thesis
    by simp
qed

lemma betting_mart_fits:
  assumes "betting_mart x m alpha fp fn N cc theta ts mt = Inr M"
  shows "\<not> population_overflow N"
  using assms by (auto simp: betting_mart_def)

text \<open>
  C2, as the claim states it, fails: at a null mean of exactly 0 or exactly 1 the
  returned value is \<open>+\<infinity>\<close>, not the capital product.
\<close>

theorem boundary_null_mean_is_masked:
  "betting_mart [1 / 2] 0 (1 / 20) (Some (\<lambda>x m. Inr (map (\<lambda>_. Fin 1) x))) None None
     False (1 / 2) (1 / 2) True = Inr [PInf]
   \<and> null_means [1 / 2] 0 None = [Fin 0]
   \<and> betting_mart [1 / 2] 1 (1 / 20) (Some (\<lambda>x m. Inr (map (\<lambda>_. Fin 1) x))) None None
     False (1 / 2) (1 / 2) True = Inr [PInf]
   \<and> null_means [1 / 2] 1 None = [Fin 1]"
  by (simp add: betting_mart_eval)

text \<open>
  C2, amended. For every stream and candidate mean, with no population size or one
  that is at least the length of the stream, the array that \<^verbatim>\<open>betting_mart\<close> returns
  is \<open>+\<infinity>\<close> at every position where the effective null mean is outside the open
  interval \<open>(0, 1)\<close>, that is \<open>\<mu>\<^sub>t \<le> 0\<close> or \<open>\<mu>\<^sub>t \<ge> 1\<close>, the values 0 and 1 included; at every
  other position it is the combination of the two capital products of the truncated
  bets. Whether such a product is finite is left to the arithmetic: a cumulative
  product of doubles can overflow to \<open>+\<infinity>\<close>.
\<close>

theorem betting_mart_masked_positions:
  assumes N: "population_covers N (length x)"
    and res: "betting_mart x m alpha fp fn N cc theta ts mt = Inr M"
    and gens: "fn_positive alpha fp x m = Inr lp0" "fn_negative alpha fp fn x m = Inr lq0"
    and bc: "broadcast_to (length x) lp0 = Inr lp" "broadcast_to (length x) lq0 = Inr lq"
    and i: "i < length x"
  shows "M ! i =
     (if fle (null_means x m N ! i) (Fin 0) \<or> fle (Fin 1) (null_means x m N ! i) then PInf
      else combine cc theta
             (capital_process_positive x (null_means x m N)
                (map2 (truncate_positive ts mt) (null_means x m N) lp) ! i)
             (capital_process_negative x (null_means x m N)
                (map2 (truncate_negative ts mt) (null_means x m N) lq) ! i))"
proof -
  have len: "length lp = length x" "length lq = length x"
    using bc by (auto dest: broadcast_to_length)
  from res betting_mart_run[OF betting_mart_fits[OF res] gens bc, of cc theta ts mt]
  have "M = capital_process x m N cc theta ts mt lp lq"
    by (auto split: if_splits)
  then show ?thesis
    using i len by (simp add: capital_process_nth mask_def masked_def)
qed

text \<open>
  Three draws of 1 from a population of 3, candidate \<open>1/2\<close>, a generator that always
  bets 1: the null means are \<open>1/2, 1/4, -1/2\<close>; the martingale is the capital
  \<open>max(1/2 \<sqdot> 21/8, 1/2 \<sqdot> 1/4) = 21/16\<close> at the second position and \<open>+\<infinity>\<close> at the third.
\<close>

theorem betting_mart_masked_positions_witness:
  "population_covers (Some 3) (length [1, 1, 1 :: real])
   \<and> betting_mart [1, 1, 1] (1 / 2) (1 / 20) (Some (\<lambda>x m. Inr (map (\<lambda>_. Fin 1) x))) None
     (Some 3) False (1 / 2) (1 / 2) True = Inr [Fin (3 / 4), Fin (21 / 16), PInf]
   \<and> null_means [1, 1, 1] (1 / 2) (Some 3) = [Fin (1 / 2), Fin (1 / 4), Fin (- 1 / 2)]
   \<and> capital_process_positive [1, 1, 1] (null_means [1, 1, 1] (1 / 2) (Some 3))
        (map2 (truncate_positive (1 / 2) True) (null_means [1, 1, 1] (1 / 2) (Some 3))
           [Fin 1, Fin 1, Fin 1]) ! 1 = Fin (21 / 8)
   \<and> capital_process_negative [1, 1, 1] (null_means [1, 1, 1] (1 / 2) (Some 3))
        (map2 (truncate_negative (1 / 2) True) (null_means [1, 1, 1] (1 / 2) (Some 3))
           [Fin 1, Fin 1, Fin 1]) ! 1 = Fin (1 / 4)
   \<and> [Fin (3 / 4), Fin (21 / 16), PInf] ! 1 = combine False (1 / 2) (Fin (21 / 8)) (Fin (1 / 4))
   \<and> [Fin (3 / 4), Fin (21 / 16), PInf :: npfloat] ! 2 = PInf"
proof -
  have N: "population_covers (Some 3) (length [1, 1, 1 :: real])"
    by (simp add: population_covers_def)
  have mus: "null_means [1, 1, 1] (1 / 2) (Some 3) = [Fin (1 / 2), Fin (1 / 4), Fin (- 1 / 2)]"
    by (simp add: null_means_def mu_t_def cumsum_def accumulate_def arange1_def upt_rec fsub_def
        wrap64_def)
  have res: "betting_mart [1, 1, 1] (1 / 2) (1 / 20) (Some (\<lambda>x m. Inr (map (\<lambda>_. Fin 1) x)))
      None (Some 3) False (1 / 2) (1 / 2) True = Inr [Fin (3 / 4), Fin (21 / 16), PInf]"
    by (simp add: betting_mart_eval mu_t_def cumsum_def arange1_def upt_rec wrap64_def)
  have g: "fn_positive (1 / 20) (Some (\<lambda>x m. Inr (map (\<lambda>_. Fin 1) x))) [1, 1, 1] (1 / 2)
      = Inr [Fin 1, Fin 1, Fin 1]"
    "fn_negative (1 / 20) (Some (\<lambda>x m. Inr (map (\<lambda>_. Fin 1) x))) None [1, 1, 1] (1 / 2)
      = Inr [Fin 1, Fin 1, Fin 1]"
    by (simp_all add: fn_positive_def fn_negative_def)
  have b: "broadcast_to (length [1, 1, 1 :: real]) [Fin 1, Fin 1, Fin 1]
      = Inr [Fin 1, Fin 1, Fin 1]"
    by (simp add: broadcast_to_def)
  have p: "capital_process_positive [1, 1, 1] (null_means [1, 1, 1] (1 / 2) (Some 3))
        (map2 (truncate_positive (1 / 2) True) (null_means [1, 1, 1] (1 / 2) (Some 3))
           [Fin 1, Fin 1, Fin 1]) ! 1 = Fin (21 / 8)"
    unfolding mus
    by (simp add: capital_process_positive_def cumprod_def accumulate_def positive_factor_def
        truncate_positive_def upper_trunc_def lower_trunc_def inf_to_1000_def fmaximum_def
        fminimum_def fsub_def)
  have q: "capital_process_negative [1, 1, 1] (null_means [1, 1, 1] (1 / 2) (Some 3))
        (map2 (truncate_negative (1 / 2) True) (null_means [1, 1, 1] (1 / 2) (Some 3))
           [Fin 1, Fin 1, Fin 1]) ! 1 = Fin (1 / 4)"
    unfolding mus
    by (simp add: capital_process_negative_def cumprod_def accumulate_def negative_factor_def
        truncate_negative_def upper_trunc_def lower_trunc_def inf_to_1000_def fmaximum_def
        fminimum_def fsub_def)
  from betting_mart_masked_positions[OF N res g b b, of 1]
    betting_mart_masked_positions[OF N res g b b, of 2] N res mus p q
  show ?thesis
    by simp
qed

text \<open>
  C3. For every stream with all entries in \<open>[0, 1]\<close>, every candidate mean, \<open>\<theta>\<close> in
  \<open>[0, 1]\<close>, truncation scale in \<open>(0, 1]\<close>, both values of \<^verbatim>\<open>m_trunc\<close> and
  \<^verbatim>\<open>convex_comb\<close>, any generators that return bets, and with or without a population
  (which has at least as many members as were drawn from it), the capital process has
  no negative entry: the assertion \<^verbatim>\<open>all(capital_process >= 0)\<close> does not fail, and
  every entry of a returned array is \<open>\<ge> 0\<close> (\<open>+\<infinity>\<close> included).
\<close>

theorem betting_mart_capital_nonneg:
  assumes x: "\<forall>v\<in>set x. 0 \<le> v \<and> v \<le> 1"
    and th: "0 \<le> theta" "theta \<le> 1" and ts: "0 < ts" "ts \<le> 1"
    and N: "population_covers N (length x)"
    and gens: "fn_positive alpha fp x m = Inr lp0" "fn_negative alpha fp fn x m = Inr lq0"
  shows "betting_mart x m alpha fp fn N cc theta ts mt \<noteq> Inl AssertNonneg
       \<and> (\<forall>M. betting_mart x m alpha fp fn N cc theta ts mt = Inr M
              \<longrightarrow> (\<forall>c\<in>set M. fle (Fin 0) c))"
proof
  show "betting_mart x m alpha fp fn N cc theta ts mt \<noteq> Inl AssertNonneg"
  proof (cases "population_overflow N")
    case True
    then show ?thesis by (simp add: betting_mart_overflow)
  next
    case fit: False
    show ?thesis
    proof
      assume a: "betting_mart x m alpha fp fn N cc theta ts mt = Inl AssertNonneg"
      define lp where "lp = stretch (length x) lp0"
      define lq where "lq = stretch (length x) lq0"
      have len: "length lp = length x" "length lq = length x"
        by (simp_all add: lp_def lq_def)
      from betting_mart_assert_nonneg[OF a gens]
      have "list_ex (\<lambda>c. flt c (Fin 0)) (capital_process x m N cc theta ts mt lp lq)"
        by (simp add: lp_def lq_def)
      then obtain i where "i < length x"
        "flt (capital_process x m N cc theta ts mt lp lq ! i) (Fin 0)"
        using len by (auto simp: list_ex_iff in_set_conv_nth length_capital_process)
      with capital_process_entry_nonneg[OF x th ts N fit len] show False
        by blast
    qed
  qed
  show "\<forall>M. betting_mart x m alpha fp fn N cc theta ts mt = Inr M
          \<longrightarrow> (\<forall>c\<in>set M. fle (Fin 0) c)"
    using betting_mart_Inr(2) by fastforce
qed

text \<open>
  Two draws, 1 and 0, from a population of 2, candidate \<open>1/2\<close>: the capital is \<open>3/4\<close>,
  then the null mean is 0 and the value \<open>+\<infinity>\<close>.
\<close>

theorem betting_mart_capital_nonneg_witness:
  "list_all (\<lambda>v. 0 \<le> v \<and> v \<le> 1) [1, 0 :: real]
   \<and> population_covers (Some 2) (length [1, 0 :: real])
   \<and> betting_mart [1, 0] (1 / 2) (1 / 20) (Some (\<lambda>x m. Inr (map (\<lambda>_. Fin 1) x))) None
       (Some 2) False (1 / 2) (1 / 2) True = Inr [Fin (3 / 4), PInf]
   \<and> list_all (\<lambda>c. fle (Fin 0) c) [Fin (3 / 4), PInf]"
proof -
  have x: "\<forall>v\<in>set [1, 0 :: real]. 0 \<le> v \<and> v \<le> 1"
    by simp
  have th: "(0::real) \<le> 1 / 2" "(1::real) / 2 \<le> 1" and ts: "(0::real) < 1 / 2"
    by simp_all
  have N: "population_covers (Some 2) (length [1, 0 :: real])"
    by (simp add: population_covers_def)
  have g: "fn_positive (1 / 20) (Some (\<lambda>x m. Inr (map (\<lambda>_. Fin 1) x))) [1, 0] (1 / 2)
      = Inr [Fin 1, Fin 1]"
    "fn_negative (1 / 20) (Some (\<lambda>x m. Inr (map (\<lambda>_. Fin 1) x))) None [1, 0] (1 / 2)
      = Inr [Fin 1, Fin 1]"
    by (simp_all add: fn_positive_def fn_negative_def)
  have res: "betting_mart [1, 0] (1 / 2) (1 / 20) (Some (\<lambda>x m. Inr (map (\<lambda>_. Fin 1) x)))
      None (Some 2) False (1 / 2) (1 / 2) True = Inr [Fin (3 / 4), PInf]"
    by (simp add: betting_mart_eval mu_t_def cumsum_def arange1_def upt_rec wrap64_def)
  from betting_mart_capital_nonneg[OF x th ts th(2) N g, of False True] res N
  show ?thesis
    by simp
qed

section \<open>The predictable-mixture bets\<close>

lemma take_cum: "take j (cum f a vs) = cum f a (take j vs)"
  by (induction vs arbitrary: a j) (auto simp: take_Cons')

lemma take_accumulate: "take j (accumulate f vs) = accumulate f (take j vs)"
  by (cases vs; cases j) (auto simp: accumulate_def take_cum)

lemma take_arange1: "j \<le> n \<Longrightarrow> take j (arange1 n) = arange1 j"
  by (simp add: arange1_def take_upt del: upt_Suc)

lemma take_mu_hat_t:
  "j \<le> length x \<Longrightarrow> take j (mu_hat_t x pm k) = mu_hat_t (take j x) pm k"
  by (simp add: mu_hat_t_def take_map take_zip cumsum_def take_accumulate take_arange1 min_def)

lemma take_sigma2_t:
  "j \<le> length x \<Longrightarrow> take j (sigma2_t x pm pv k) = sigma2_t (take j x) pm pv k"
  by (simp add: sigma2_t_def take_map take_zip cumsum_def take_accumulate take_arange1
      take_mu_hat_t min_def)

lemma length_mu_hat_t [simp]: "length (mu_hat_t x pm k) = length x"
  by (simp add: mu_hat_t_def)

lemma length_sigma2_t [simp]: "length (sigma2_t x pm pv k) = length x"
  by (simp add: sigma2_t_def)

lemma sigma2_tminus1_nth:
  assumes "i < length x"
  shows "sigma2_tminus1 x pm pv k ! i
         = (if i = 0 then Fin pv else sigma2_t (take i x) pm pv k ! (i - 1))"
proof (cases i)
  case 0
  then show ?thesis by (simp add: sigma2_tminus1_def)
next
  case (Suc j)
  with assms have "sigma2_tminus1 x pm pv k ! i = sigma2_t x pm pv k ! j"
    by (simp add: sigma2_tminus1_def)
  also have "\<dots> = take i (sigma2_t x pm pv k) ! j"
    using Suc by simp
  also have "\<dots> = sigma2_t (take i x) pm pv k ! j"
    using assms by (simp add: take_sigma2_t)
  finally show ?thesis using Suc by simp
qed

lemma length_sigma2_tminus1 [simp]: "length (sigma2_tminus1 x pm pv k) = Suc (length x - 1)"
  by (simp add: sigma2_tminus1_def)

lemma length_sigma2_tminus1_negzero [simp]:
  "length (sigma2_tminus1_negzero n k) = Suc (n - 1)"
  by (simp add: sigma2_tminus1_negzero_def)

lemma sigma2_tminus1_negzero_nth:
  assumes "i < n"
  shows "sigma2_tminus1_negzero n k ! i = (i \<noteq> 0 \<and> real i + k < 0)"
proof (cases i)
  case 0
  then show ?thesis by (simp add: sigma2_tminus1_negzero_def)
next
  case (Suc j)
  with assms have "j < n - 1" by simp
  from arange1_nth[OF this] this Suc show ?thesis
    by (simp add: sigma2_tminus1_negzero_def)
qed

lemma sigma2_tminus1_negzero_nonneg:
  "0 \<le> k \<Longrightarrow> i < n \<Longrightarrow> \<not> sigma2_tminus1_negzero n k ! i"
  by (simp add: sigma2_tminus1_negzero_nth)

lemma lambda_predmix_eb_returns:
  "alpha \<noteq> 0 \<Longrightarrow>
   \<exists>ls. lambda_predmix_eb x T alpha fixed_n pm pv k s = Inr ls
      \<and> length ls = (if x = [] \<and> fixed_n \<noteq> None then 1 else length x)"
  by (cases fixed_n; cases x) (auto simp: lambda_predmix_eb_def Let_def arange1_def not_less_eq_eq)

lemmas bets_eval =
  default_bets_def lambda_predmix_eb_def sigma2_tminus1_def sigma2_t_def mu_hat_t_def
  sigma2_tminus1_negzero_def fdiv_by_product_def fdiv_signed_def sign_bit_def
  cumsum_def arange1_def nan_to_def

lemma lambda_predmix_eb_nth:
  assumes "alpha \<noteq> 0" "i < length x"
  shows "\<exists>ls. lambda_predmix_eb x T alpha fixed_n pm pv k s = Inr ls \<and> length ls = length x
     \<and> ls ! i = bet_of T alpha fixed_n s (Suc i) (sigma2_tminus1 x pm pv k ! i)
                  (sigma2_tminus1_negzero (length x) k ! i)"
  using assms
  by (cases fixed_n)
    (auto simp: lambda_predmix_eb_def Let_def bet_of_def arange1_nth)

text \<open>
  C7. The bets of \<^verbatim>\<open>lambda_predmix_eb\<close> are predictable: for two streams of equal
  length that agree on their first \<open>i\<close> entries (and equal parameters), both calls
  return, and the bet at position \<open>i\<close> (counted from 0, so the \<open>(i+1)\<close>-th bet) is the
  same; the entries from the \<open>(i+1)\<close>-th on never change it.
\<close>

theorem lambda_predmix_eb_predictable:
  assumes "alpha \<noteq> 0" "length x = length x'" "i < length x" "take i x = take i x'"
  shows "\<exists>ls ls'. lambda_predmix_eb x T alpha fixed_n pm pv k s = Inr ls
       \<and> lambda_predmix_eb x' T alpha fixed_n pm pv k s = Inr ls'
       \<and> length ls = length x \<and> length ls' = length x \<and> ls ! i = ls' ! i"
proof -
  have "sigma2_tminus1 x pm pv k ! i = sigma2_tminus1 x' pm pv k ! i"
    using assms by (simp add: sigma2_tminus1_nth)
  moreover have "sigma2_tminus1_negzero (length x) k ! i = sigma2_tminus1_negzero (length x') k ! i"
    using assms by simp
  ultimately show ?thesis
    using lambda_predmix_eb_nth[OF assms(1,3), of T fixed_n pm pv k s]
    lambda_predmix_eb_nth[OF assms(1), of i x' T fixed_n pm pv k s] assms
    by auto
qed

text \<open>
  The streams \<open>[1, 0, 0]\<close> and \<open>[1, 1, 1]\<close> share their first entry only; their second
  bets are equal.
\<close>

theorem lambda_predmix_eb_predictable_witness:
  "take 1 [1, 0, 0] = take 1 [1, 1, 1 :: real]
   \<and> (\<exists>ls ls'. lambda_predmix_eb [1, 0, 0] PInf (1 / 20) None (1 / 2) (1 / 4) 1 1 = Inr ls
         \<and> lambda_predmix_eb [1, 1, 1] PInf (1 / 20) None (1 / 2) (1 / 4) 1 1 = Inr ls'
         \<and> length ls = 3 \<and> length ls' = 3 \<and> ls ! 1 = ls' ! 1)"
proof -
  have a: "(1::real) / 20 \<noteq> 0" and l: "length [1, 0, 0 :: real] = length [1, 1, 1 :: real]"
    and i: "1 < length [1, 0, 0 :: real]" and t: "take 1 [1, 0, 0] = take 1 [1, 1, 1 :: real]"
    by simp_all
  from lambda_predmix_eb_predictable[OF a l i t, of PInf None "1 / 2" "1 / 4" 1 1] t
  show ?thesis
    by (simp add: numeral_3_eq_3)
qed

section \<open>The bets and the specification's formula\<close>

lemma sum_shift_take:
  "t \<le> length ys \<Longrightarrow> (\<Sum>r = 1..t. ys ! (r - 1)) = sum_list (take t (ys::real list))"
proof (induction t)
  case 0
  then show ?case by simp
next
  case (Suc t)
  then show ?case by (simp add: take_Suc_conv_app_nth)
qed

lemma mu_hat_t_spec:
  assumes "j < length x" "real (Suc j) + k \<noteq> 0"
  shows "mu_hat_t x pm k ! j = Fin (spec_s_hat x k pm (Suc j))"
proof -
  have "mu_hat_t x pm k ! j
      = fdiv (fadd (Fin (k * pm)) (Fin (sum_list (take (Suc j) x)))) (Fin (real (Suc j) + k))"
    using assms(1) by (simp add: mu_hat_t_def cumsum_Fin_nth arange1_nth del: fdiv.simps fadd.simps)
  also have "\<dots> = Fin ((k * pm + sum_list (take (Suc j) x)) / (real (Suc j) + k))"
    using assms(2) by simp
  also have "sum_list (take (Suc j) x) = (\<Sum>r = 1..Suc j. x ! (r - 1))"
    using assms(1) sum_shift_take[of "Suc j" x] by (simp del: sum.cl_ivl_Suc)
  finally show ?thesis by (simp add: spec_s_hat_def del: sum.cl_ivl_Suc)
qed

lemma squares_spec:
  assumes k: "0 \<le> k"
  shows "map2 (\<lambda>v mu. fpow2 (fsub (Fin v) mu)) x (mu_hat_t x pm k)
         = map Fin (map (\<lambda>j. (x ! j - spec_s_hat x k pm (Suc j))\<^sup>2) [0..<length x])"
proof (rule nth_equalityI)
  show "length (map2 (\<lambda>v mu. fpow2 (fsub (Fin v) mu)) x (mu_hat_t x pm k))
      = length (map Fin (map (\<lambda>j. (x ! j - spec_s_hat x k pm (Suc j))\<^sup>2) [0..<length x]))"
    by simp
next
  fix j assume "j < length (map2 (\<lambda>v mu. fpow2 (fsub (Fin v) mu)) x (mu_hat_t x pm k))"
  then have j: "j < length x" by simp
  have "real (Suc j) + k \<noteq> 0" using k by (simp add: add_nonneg_eq_0_iff)
  from mu_hat_t_spec[OF j this] j
  show "map2 (\<lambda>v mu. fpow2 (fsub (Fin v) mu)) x (mu_hat_t x pm k) ! j
      = map Fin (map (\<lambda>j. (x ! j - spec_s_hat x k pm (Suc j))\<^sup>2) [0..<length x]) ! j"
    by (simp add: fsub_def)
qed

lemma sigma2_t_spec:
  assumes "j < length x" "0 \<le> k"
  shows "sigma2_t x pm pv k ! j = Fin (spec_v x k pm pv (Suc j))"
proof -
  define sq where "sq = map (\<lambda>j. (x ! j - spec_s_hat x k pm (Suc j))\<^sup>2) [0..<length x]"
  have nz: "real (Suc j) + k \<noteq> 0" using assms(2) by (simp add: add_nonneg_eq_0_iff)
  have len: "length sq = length x" by (simp add: sq_def)
  have "sigma2_t x pm pv k ! j
      = fdiv (fadd (Fin (k * pv)) (Fin (sum_list (take (Suc j) sq)))) (Fin (real (Suc j) + k))"
    using assms(1) len
    by (simp add: sigma2_t_def squares_spec[OF assms(2)] sq_def[symmetric] cumsum_Fin_nth
        arange1_nth del: fdiv.simps fadd.simps)
  also have "\<dots> = Fin ((k * pv + sum_list (take (Suc j) sq)) / (real (Suc j) + k))"
    using nz by simp
  also have "sum_list (take (Suc j) sq) = (\<Sum>r = 1..Suc j. sq ! (r - 1))"
    using assms(1) len sum_shift_take[of "Suc j" sq] by (simp del: sum.cl_ivl_Suc)
  also have "\<dots> = (\<Sum>r = 1..Suc j. (x ! (r - 1) - spec_s_hat x k pm r)\<^sup>2)"
  proof (rule sum.cong[OF refl])
    fix r assume "r \<in> {1..Suc j}"
    then have "r - 1 < length x" "Suc (r - 1) = r" using assms(1) by auto
    then show "sq ! (r - 1) = (x ! (r - 1) - spec_s_hat x k pm r)\<^sup>2"
      by (simp add: sq_def)
  qed
  finally show ?thesis by (simp add: spec_v_def del: sum.cl_ivl_Suc)
qed

lemma sigma2_tminus1_spec:
  assumes "i < length x" "0 \<le> k"
  shows "sigma2_tminus1 x pm pv k ! i = Fin (spec_v x k pm pv i)"
proof (cases i)
  case 0
  then show ?thesis by (simp add: sigma2_tminus1_def spec_v_def)
next
  case (Suc j)
  with assms sigma2_t_spec[of j x k pm pv] show ?thesis
    by (simp add: sigma2_tminus1_def)
qed

lemma fmul_commute: "fmul a b = fmul b a"
  by (cases a; cases b) (auto simp: mult.commute)

lemma spec_min_fminimum: "spec_min T r = fminimum T r"
  by (cases T; cases r) (auto simp: spec_min_def fminimum_def)

lemma spec_times_fmul: "spec_times s v = fmul (Fin s) v"
  by (cases v) (auto simp: spec_times_def)

lemma bet_of_spec:
  assumes A: "0 < A" "flog (Fin (1 / alpha)) = Fin (A / 2)"
  shows "bet_of T alpha fixed_n s t (Fin v) False
       = spec_times s (spec_min T
           (spec_root A (case fixed_n of None \<Rightarrow> real t * ln (1 + real t) | Some n \<Rightarrow> n) v))"
proof -
  define c where "c = (case fixed_n of None \<Rightarrow> real t * ln (1 + real t) | Some n \<Rightarrow> n)"
  have "nan_to 0 (fsqrt (fdiv_by_product (Fin A) c (Fin v) False)) = spec_root A c v"
  proof (cases "c * v = 0")
    case True
    then show ?thesis
      using A(1)
      by (auto simp: fdiv_by_product_def fdiv_signed_def sign_bit_def spec_root_def nan_to_def)
  next
    case False
    then show ?thesis
      using A(1)
      by (auto simp: fdiv_by_product_def fdiv_signed_def sign_bit_def spec_root_def nan_to_def)
  qed
  then show ?thesis
    unfolding bet_of_def A(2) c_def[symmetric] spec_min_fminimum spec_times_fmul
    by (subst fmul_commute) simp
qed

text \<open>
  C4. For every stream of length \<open>n\<close>, \<open>\<alpha>\<close> in \<open>(0, 1)\<close>, truncation cap \<open>T\<close>, prior mean,
  prior variance, fake-observation weight \<open>k \<ge> 1\<close> and scale \<open>s\<close>,
  \<^verbatim>\<open>lambda_predmix_eb\<close> returns bets of which the \<open>t\<close>-th, for \<open>t = 1..n\<close>, is the
  specification's \<open>s \<sqdot> min(T, \<surd>(2 ln(1/\<alpha>) / (t ln(1+t) v\<^bsub>t-1\<^esub>)))\<close> with the
  specification's regularized mean and variance, \<open>v\<^sub>0 = \<sigma>\<^sub>0\<^sup>2\<close>, \<^verbatim>\<open>fixed_n\<close> in place
  of \<open>t ln(1+t)\<close> when it is given, and NaN replaced by 0 before the minimum. There
  are \<open>n\<close> bets, but for an empty stream with \<^verbatim>\<open>fixed_n\<close> there is one, the bet for
  \<open>t = 1\<close>.
\<close>

theorem lambda_predmix_eb_spec:
  assumes "0 < alpha" "alpha < 1" "1 \<le> k"
  shows "\<exists>ls. lambda_predmix_eb x T alpha fixed_n mu0 sigma0 k s = Inr ls
     \<and> length ls = (if x = [] \<and> fixed_n \<noteq> None then 1 else length x)
     \<and> (\<forall>t. 1 \<le> t \<and> t \<le> length ls
            \<longrightarrow> ls ! (t - 1) = spec_lambda x T alpha fixed_n mu0 sigma0 k s t)"
proof -
  have a: "alpha \<noteq> 0" using assms by simp
  from lambda_predmix_eb_returns[OF a, of x T fixed_n mu0 sigma0 k s]
  obtain ls where ls: "lambda_predmix_eb x T alpha fixed_n mu0 sigma0 k s = Inr ls"
    "length ls = (if x = [] \<and> fixed_n \<noteq> None then 1 else length x)"
    by blast
  have pos: "0 < 2 * ln (1 / alpha)"
    using assms by (simp add: ln_gt_zero)
  have lg: "flog (Fin (1 / alpha)) = Fin (2 * ln (1 / alpha) / 2)"
    using assms by simp
  have "ls ! (t - 1) = spec_lambda x T alpha fixed_n mu0 sigma0 k s t"
    if t: "1 \<le> t" "t \<le> length ls" for t
  proof (cases "x = []")
    case True
    with ls t obtain n where n: "fixed_n = Some n" "t = 1"
      by (cases fixed_n) (auto split: if_splits)
    from ls True n a have "ls ! 0 = bet_of T alpha fixed_n s 1 (Fin sigma0) False"
      by (auto simp: lambda_predmix_eb_def Let_def bet_of_def sigma2_tminus1_def
          sigma2_tminus1_negzero_def)
    also have "\<dots> = spec_lambda x T alpha fixed_n mu0 sigma0 k s 1"
      unfolding bet_of_spec[OF pos lg] by (simp add: spec_lambda_def spec_v_def n)
    finally show ?thesis using n by simp
  next
    case False
    with ls t have i: "t - 1 < length x" "Suc (t - 1) = t" by auto
    have k: "0 \<le> k" using assms by simp
    from lambda_predmix_eb_nth[OF a i(1), of T fixed_n mu0 sigma0 k s] ls
    have "ls ! (t - 1) = bet_of T alpha fixed_n s t (sigma2_tminus1 x mu0 sigma0 k ! (t - 1))
        (sigma2_tminus1_negzero (length x) k ! (t - 1))"
      using i by simp
    also have "\<dots> = bet_of T alpha fixed_n s t (Fin (spec_v x k mu0 sigma0 (t - 1))) False"
      using sigma2_tminus1_spec[OF i(1) k, of mu0 sigma0]
        sigma2_tminus1_negzero_nonneg[OF k i(1)] by simp
    also have "\<dots> = spec_lambda x T alpha fixed_n mu0 sigma0 k s t"
      unfolding bet_of_spec[OF pos lg] by (simp add: spec_lambda_def)
    finally show ?thesis .
  qed
  with ls show ?thesis by blast
qed

text \<open>
  The stream \<open>[1, 0]\<close> with \<open>\<alpha> = 1/2\<close>, a fixed horizon of 2 and the default prior:
  \<open>v\<^sub>1 = (1/4 + (1 - 3/4)\<^sup>2) / 2 = 5/32\<close>, and the second bet is \<open>\<surd>(2 ln 2 / (2 \<sqdot> 5/32))\<close>.
  With a prior variance of 0 and the horizon \<open>-1\<close> the first quotient is
  \<open>2 ln 2 / -0.0 = -\<infinity>\<close>, its root NaN and the bet 0, and the second radicand is negative
  and the bet 0 again.
\<close>

theorem lambda_predmix_eb_spec_witness:
  "lambda_predmix_eb [1, 0] PInf (1 / 2) (Some 2) (1 / 2) (1 / 4) 1 1
     = Inr [Fin (sqrt (4 * ln 2)), Fin (sqrt (32 * ln 2 / 5))]
   \<and> spec_v [1, 0] 1 (1 / 2) (1 / 4) 1 = 5 / 32
   \<and> spec_lambda [1, 0] PInf (1 / 2) (Some 2) (1 / 2) (1 / 4) 1 1 1 = Fin (sqrt (4 * ln 2))
   \<and> spec_lambda [1, 0] PInf (1 / 2) (Some 2) (1 / 2) (1 / 4) 1 1 2 = Fin (sqrt (32 * ln 2 / 5))
   \<and> lambda_predmix_eb [1, 0] PInf (1 / 2) (Some (- 1)) (1 / 2) 0 1 1 = Inr [Fin 0, Fin 0]
   \<and> spec_lambda [1, 0] PInf (1 / 2) (Some (- 1)) (1 / 2) 0 1 1 1 = Fin 0
   \<and> spec_lambda [1, 0] PInf (1 / 2) (Some (- 1)) (1 / 2) 0 1 1 2 = Fin 0"
proof -
  have a: "(0::real) < 1 / 2" "(1::real) / 2 < 1" "(1::real) \<le> 1"
    by simp_all
  have l2: "0 < ln (2::real)"
    by simp
  have ev: "lambda_predmix_eb [1, 0] PInf (1 / 2) (Some 2) (1 / 2) (1 / 4) 1 1
      = Inr [Fin (sqrt (4 * ln 2)), Fin (sqrt (32 * ln 2 / 5))]"
    by (simp add: bets_eval accumulate_def fsub_def power2_eq_square upt_rec fminimum_def ln_div)
  have ev': "lambda_predmix_eb [1, 0] PInf (1 / 2) (Some (- 1)) (1 / 2) 0 1 1
      = Inr [Fin 0, Fin 0]"
    using l2
    by (simp add: bets_eval accumulate_def fsub_def power2_eq_square upt_rec fminimum_def ln_div)
  have v: "spec_v [1, 0] 1 (1 / 2) (1 / 4) 1 = 5 / 32"
    by (simp add: spec_v_def spec_s_hat_def power2_eq_square)
  from lambda_predmix_eb_spec[OF a, of "[1, 0]" PInf "Some 2" "1 / 2" "1 / 4" 1]
  obtain ls where ls: "lambda_predmix_eb [1, 0] PInf (1 / 2) (Some 2) (1 / 2) (1 / 4) 1 1 = Inr ls"
    and sp: "\<forall>t. 1 \<le> t \<and> t \<le> length ls
      \<longrightarrow> ls ! (t - 1) = spec_lambda [1, 0] PInf (1 / 2) (Some 2) (1 / 2) (1 / 4) 1 1 t"
    by blast
  from ls ev have e: "ls = [Fin (sqrt (4 * ln 2)), Fin (sqrt (32 * ln 2 / 5))]"
    by simp
  from lambda_predmix_eb_spec[OF a, of "[1, 0]" PInf "Some (- 1)" "1 / 2" 0 1]
  obtain ls' where ls': "lambda_predmix_eb [1, 0] PInf (1 / 2) (Some (- 1)) (1 / 2) 0 1 1 = Inr ls'"
    and sp': "\<forall>t. 1 \<le> t \<and> t \<le> length ls'
      \<longrightarrow> ls' ! (t - 1) = spec_lambda [1, 0] PInf (1 / 2) (Some (- 1)) (1 / 2) 0 1 1 t"
    by blast
  from ls' ev' have e': "ls' = [Fin 0, Fin 0]"
    by simp
  from sp[rule_format, of 1] sp[rule_format, of 2] sp'[rule_format, of 1] sp'[rule_format, of 2]
    e e' ev ev' v
  show ?thesis
    by simp
qed

section \<open>Reflecting the stream and the candidate mean\<close>

lemma fneg_fmul_Fin: "fneg (fmul a (Fin r)) = fmul a (Fin (- r))"
  by (cases a) auto

lemma fmaximum_commute: "fmaximum a b = fmaximum b a"
  by (cases a; cases b) (auto simp: fmaximum_def)

lemma trunc_reflect:
  "upper_trunc ts mt (Fin (1 - m)) = lower_trunc ts mt (Fin m)"
  "lower_trunc ts mt (Fin (1 - m)) = upper_trunc ts mt (Fin m)"
  by (simp_all add: upper_trunc_def lower_trunc_def fsub_def del: fdiv.simps)

lemma truncate_reflect:
  "truncate_positive ts mt (Fin (1 - m)) l = truncate_negative ts mt (Fin m) l"
  "truncate_negative ts mt (Fin (1 - m)) l = truncate_positive ts mt (Fin m) l"
  by (simp_all add: truncate_positive_def truncate_negative_def trunc_reflect)

lemma factor_reflect:
  "positive_factor l (1 - v) (Fin (1 - m)) = negative_factor l v (Fin m)"
  "negative_factor l (1 - v) (Fin (1 - m)) = positive_factor l v (Fin m)"
  by (simp_all add: positive_factor_def negative_factor_def fsub_def fneg_fmul_Fin)

lemma masked_reflect: "masked (Fin (1 - m)) = masked (Fin m)"
  by (auto simp: masked_def)

lemma capital_reflect:
  assumes "length lp = length x" "length lq = length x"
  shows "capital_process (map (\<lambda>v. 1 - v) x) (1 - m) None False (1 / 2) ts mt lp lq
         = capital_process x m None False (1 / 2) ts mt lq lp"
proof -
  have p: "map2 (\<lambda>l (v, mu). positive_factor l v mu)
        (map2 (truncate_positive ts mt) (replicate (length x) (Fin (1 - m))) lp)
        (zip (map (\<lambda>v. 1 - v) x) (replicate (length x) (Fin (1 - m))))
      = map2 (\<lambda>l (v, mu). negative_factor l v mu)
        (map2 (truncate_negative ts mt) (replicate (length x) (Fin m)) lp)
        (zip x (replicate (length x) (Fin m)))"
    using assms by (intro nth_equalityI) (simp_all add: truncate_reflect factor_reflect)
  have q: "map2 (\<lambda>l (v, mu). negative_factor l v mu)
        (map2 (truncate_negative ts mt) (replicate (length x) (Fin (1 - m))) lq)
        (zip (map (\<lambda>v. 1 - v) x) (replicate (length x) (Fin (1 - m))))
      = map2 (\<lambda>l (v, mu). positive_factor l v mu)
        (map2 (truncate_positive ts mt) (replicate (length x) (Fin m)) lq)
        (zip x (replicate (length x) (Fin m)))"
    using assms by (intro nth_equalityI) (simp_all add: truncate_reflect factor_reflect)
  show ?thesis
    using assms
    by (intro nth_equalityI)
      (simp_all add: capital_process_def Let_def null_means_def capital_process_positive_def
        capital_process_negative_def p q mask_def masked_reflect combine_def fmaximum_commute)
qed

lemma sum_shift_take': "t \<le> length ys \<Longrightarrow> (\<Sum>r = Suc 0..t. ys ! (r - Suc 0)) = sum_list (take t (ys::real list))"
  using sum_shift_take[of t ys] by simp

lemma spec_s_hat_reflect:
  assumes "t \<le> length x"
  shows "spec_s_hat (map (\<lambda>v. 1 - v) x) 1 (1 / 2) t = 1 - spec_s_hat x 1 (1 / 2) t"
proof -
  have "(\<Sum>r = 1..t. map (\<lambda>v. 1 - v) x ! (r - 1)) = (\<Sum>r = 1..t. 1 - x ! (r - 1))"
    using assms by (intro sum.cong) auto
  also have "\<dots> = real t - (\<Sum>r = 1..t. x ! (r - 1))"
    by (simp add: sum_subtractf)
  finally show ?thesis
    by (simp add: spec_s_hat_def field_simps)
qed

lemma spec_v_reflect:
  assumes "t \<le> length x"
  shows "spec_v (map (\<lambda>v. 1 - v) x) 1 (1 / 2) pv t = spec_v x 1 (1 / 2) pv t"
proof -
  have "(\<Sum>r = 1..t. (map (\<lambda>v. 1 - v) x ! (r - 1) - spec_s_hat (map (\<lambda>v. 1 - v) x) 1 (1 / 2) r)\<^sup>2)
      = (\<Sum>r = 1..t. (x ! (r - 1) - spec_s_hat x 1 (1 / 2) r)\<^sup>2)"
  proof (rule sum.cong[OF refl])
    fix r assume "r \<in> {1..t}"
    then have r: "r - 1 < length x" "r \<le> length x" using assms by auto
    show "(map (\<lambda>v. 1 - v) x ! (r - 1) - spec_s_hat (map (\<lambda>v. 1 - v) x) 1 (1 / 2) r)\<^sup>2
        = (x ! (r - 1) - spec_s_hat x 1 (1 / 2) r)\<^sup>2"
      using r by (simp add: spec_s_hat_reflect power2_commute)
  qed
  then show ?thesis by (simp add: spec_v_def)
qed

lemma sigma2_tminus1_reflect:
  "sigma2_tminus1 (map (\<lambda>v. 1 - v) x) (1 / 2) pv 1 = sigma2_tminus1 x (1 / 2) pv 1"
proof (cases "x = []")
  case True
  then show ?thesis by (simp add: sigma2_tminus1_def)
next
  case False
  then have n: "Suc (length x - 1) = length x" by (cases x) auto
  show ?thesis
  proof (rule nth_equalityI)
    show "length (sigma2_tminus1 (map (\<lambda>v. 1 - v) x) (1 / 2) pv 1) = length (sigma2_tminus1 x (1 / 2) pv 1)"
      by simp
  next
    fix i assume "i < length (sigma2_tminus1 (map (\<lambda>v. 1 - v) x) (1 / 2) pv 1)"
    then have i: "i < length x" using n by simp
    then show "sigma2_tminus1 (map (\<lambda>v. 1 - v) x) (1 / 2) pv 1 ! i = sigma2_tminus1 x (1 / 2) pv 1 ! i"
      using sigma2_tminus1_spec[of i x 1 "1 / 2" pv]
        sigma2_tminus1_spec[of i "map (\<lambda>v. 1 - v) x" 1 "1 / 2" pv]
      by (simp add: spec_v_reflect)
  qed
qed

lemma default_bets_reflect:
  "default_bets alpha (map (\<lambda>v. 1 - v) x) (1 - m) = default_bets alpha x m"
  by (simp add: default_bets_def lambda_predmix_eb_def sigma2_tminus1_reflect)

lemma betting_mart_reflect_same_bets:
  assumes p: "fn_positive alpha fp (map (\<lambda>v. 1 - v) x) (1 - m) = fn_positive alpha fp x m"
    and n: "fn_negative alpha fp fn = fn_positive alpha fp"
  shows "betting_mart (map (\<lambda>v. 1 - v) x) (1 - m) alpha fp fn None False (1 / 2) ts mt
         = betting_mart x m alpha fp fn None False (1 / 2) ts mt"
proof (cases "fn_positive alpha fp x m")
  case (Inl e)
  then show ?thesis using p n by (simp add: betting_mart_def)
next
  case (Inr l0)
  have "length (stretch (length x) l0) = length x" by simp
  from capital_reflect[OF this this, of m ts mt] Inr p n
  show ?thesis by (simp add: betting_mart_def Let_def split: option.splits)
qed

text \<open>
  C6, as the claim states it, fails: one generator for both sides is not enough when
  its bets change under the reflection. With the generator that bets the candidate
  mean itself, the stream \<open>[1]\<close> and the candidate \<open>1/4\<close> give \<open>19/32\<close>, and the reflected
  stream \<open>[0]\<close> with the candidate \<open>3/4\<close> gives \<open>25/32\<close>.
\<close>

theorem reflection_changes_capital:
  "betting_mart [1] (1 / 4) (1 / 20) (Some (\<lambda>x m. Inr (map (\<lambda>_. Fin m) x)))
     (Some (\<lambda>x m. Inr (map (\<lambda>_. Fin m) x))) None False (1 / 2) (1 / 2) True
     = Inr [Fin (19 / 32)]
   \<and> betting_mart (map (\<lambda>v. 1 - v) [1]) (1 - 1 / 4) (1 / 20)
       (Some (\<lambda>x m. Inr (map (\<lambda>_. Fin m) x))) (Some (\<lambda>x m. Inr (map (\<lambda>_. Fin m) x)))
       None False (1 / 2) (1 / 2) True
     = Inr [Fin (25 / 32)]"
  by (simp add: betting_mart_eval)

text \<open>
  C6, amended. For every stream and candidate mean, with \<open>\<theta> = 1/2\<close>, \<^verbatim>\<open>convex_comb\<close>
  false, no population size, and one generator for both sides that returns the same
  bets for \<open>(1 - x, 1 - m)\<close> as for \<open>(x, m)\<close> (the default predictable-mixture bets do),
  \<^verbatim>\<open>betting_mart\<close> returns for the reflected inputs what it returns for \<open>(x, m)\<close>, for
  every truncation scale and both values of \<^verbatim>\<open>m_trunc\<close>: the same error, or capital
  values that are equal in real arithmetic. The equality is one of real numbers; in
  double precision the two calls round differently (\<open>(1 - x) - (1 - m)\<close> is not the
  double \<open>-(x - m)\<close>), and their values agree up to that rounding.
\<close>

theorem betting_mart_reflection_symmetry:
  assumes p: "fp = None \<or> (\<exists>f. fp = Some f \<and> f (map (\<lambda>v. 1 - v) x) (1 - m) = f x m)"
    and n: "fn = None \<or> fn = fp"
  shows "betting_mart (map (\<lambda>v. 1 - v) x) (1 - m) alpha fp fn None False (1 / 2) ts mt
         = betting_mart x m alpha fp fn None False (1 / 2) ts mt"
proof (rule betting_mart_reflect_same_bets)
  show "fn_positive alpha fp (map (\<lambda>v. 1 - v) x) (1 - m) = fn_positive alpha fp x m"
    using p by (auto simp: fn_positive_def default_bets_reflect)
  show "fn_negative alpha fp fn = fn_positive alpha fp"
    using n by (auto simp: fn_negative_def fn_positive_def split: option.splits)
qed

text \<open>
  A generator that always bets 1, the stream \<open>[1]\<close> and the candidate \<open>1/4\<close>: both calls
  return \<open>7/8\<close>.
\<close>

theorem betting_mart_reflection_symmetry_witness:
  "betting_mart (map (\<lambda>v. 1 - v) [1]) (1 - 1 / 4) (1 / 20)
       (Some (\<lambda>x m. Inr (map (\<lambda>_. Fin 1) x))) None None False (1 / 2) (1 / 2) True
     = Inr [Fin (7 / 8)]
   \<and> betting_mart [1] (1 / 4) (1 / 20)
       (Some (\<lambda>x m. Inr (map (\<lambda>_. Fin 1) x))) None None False (1 / 2) (1 / 2) True
     = Inr [Fin (7 / 8)]"
proof -
  have p: "Some (\<lambda>x m. Inr (map (\<lambda>_. Fin 1) x)) = None
      \<or> (\<exists>f. Some (\<lambda>(x::real list) (m::real). (Inr (map (\<lambda>_. Fin 1) x) :: pyerror + npfloat list))
             = Some f \<and> f (map (\<lambda>v. 1 - v) [1]) (1 - 1 / 4) = f [1] (1 / 4))"
    by simp
  have n: "(None :: bets_fn option) = None \<or> None = Some (\<lambda>x m. Inr (map (\<lambda>_. Fin 1) x))"
    by simp
  have ev: "betting_mart [1] (1 / 4) (1 / 20)
       (Some (\<lambda>x m. Inr (map (\<lambda>_. Fin 1) x))) None None False (1 / 2) (1 / 2) True
     = Inr [Fin (7 / 8)]"
    by (simp add: betting_mart_eval)
  from betting_mart_reflection_symmetry[OF p n, of "1 / 20" "1 / 2" True] ev
  show ?thesis
    by simp
qed


section \<open>The confidence sequence and the significance level\<close>

lemma fadd_zero_fmul_one: "fadd (Fin 0) (fmul (Fin 1) c) = c"
  by (cases c) auto

lemma diversified_single:
  "diversified_betting_mart x m [fp] (Some [fn]) None alpha N cc theta ts mt
   = betting_mart x m alpha fp fn N cc theta ts mt"
proof (cases "betting_mart x m alpha fp fn N cc theta ts mt")
  case (Inl e)
  then show ?thesis by (simp add: diversified_betting_mart_def)
next
  case (Inr M)
  have "map2 fadd (replicate (length x) (Fin 0)) (map (fmul (Fin 1)) M) = M"
    using betting_mart_Inr(1)[OF Inr]
    by (intro nth_equalityI) (simp_all add: fadd_zero_fmul_one)
  with Inr show ?thesis by (simp add: diversified_betting_mart_def)
qed

lemma default_bets_at_sqrt2: "default_bets (1 / sqrt 2) [1] m = Inr [Fin 2]"
  by (simp add: bets_eval fminimum_def ln_sqrt ln_div)

lemma default_bets_at_root8: "default_bets (1 / sqrt (sqrt (sqrt 2))) [1] m = Inr [Fin 1]"
  by (simp add: bets_eval fminimum_def ln_sqrt ln_div)

lemma possible_m_12: "possible_m 12 = [0, 1/12, 2/12, 3/12, 4/12, 5/12, 6/12, 7/12, 8/12, 9/12, 10/12, 11/12, 1]"
  by (simp add: possible_m_def upt_rec)

lemma clip_Fin:
  "- L \<le> lam \<Longrightarrow> fminimum (Fin U) (fmaximum (fneg (Fin L)) (Fin lam)) = Fin (min U lam)"
  by (auto simp: fmaximum_def fminimum_def min_def)

lemma betting_mart_one_step:
  assumes b: "default_bets alpha [1] m = Inr [Fin lam]" and lam: "0 < lam" and m: "0 < m" "m < 1"
  shows "betting_mart [1] m alpha None None None False (1 / 2) (1 / 2) True
         = Inr [Fin ((1 + min (1 / (2 * m)) lam * (1 - m)) / 2)]"
proof -
  define U where "U = 1 / (2 * m)"
  define L where "L = 1 / (2 * (1 - m))"
  have U: "0 < U" and L: "0 < L" using m by (simp_all add: U_def L_def)
  have up: "upper_trunc (1 / 2) True (Fin m) = Fin U"
    and lo: "lower_trunc (1 / 2) True (Fin m) = Fin L"
    using m by (simp_all add: upper_trunc_Fin lower_trunc_Fin U_def L_def)
  have nl: "- L \<le> lam" "- U \<le> lam"
    using U L lam by linarith+
  have tp: "truncate_positive (1 / 2) True (Fin m) (Fin lam) = Fin (min U lam)"
    unfolding truncate_positive_def up lo by (rule clip_Fin[OF nl(1)])
  have tn: "truncate_negative (1 / 2) True (Fin m) (Fin lam) = Fin (min L lam)"
    unfolding truncate_negative_def up lo by (rule clip_Fin[OF nl(2)])
  define p where "p = 1 + min U lam * (1 - m)"
  define q where "q = 1 - min L lam * (1 - m)"
  have "0 \<le> min U lam * (1 - m)" using m lam U by (intro mult_nonneg_nonneg) auto
  then have p1: "1 \<le> p" by (simp add: p_def)
  have "0 \<le> min L lam * (1 - m)" using m lam L by (intro mult_nonneg_nonneg) auto
  then have q1: "q \<le> 1" by (simp add: q_def)
  have pf: "positive_factor (Fin (min U lam)) 1 (Fin m) = Fin p"
    by (simp add: positive_factor_def fsub_def p_def)
  have nf: "negative_factor (Fin (min L lam)) 1 (Fin m) = Fin q"
    by (simp add: negative_factor_def fsub_def q_def)
  have cb: "combine False (1 / 2) (Fin p) (Fin q) = Fin (p / 2)"
    using p1 q1 by (simp add: combine_def fmaximum_def)
  have mk: "mask (Fin m) (Fin (p / 2)) = Fin (p / 2)"
    using m by (simp add: mask_def masked_def)
  have cp: "capital_process [1] m None False (1 / 2) (1 / 2) True [Fin lam] [Fin lam] = [Fin (p / 2)]"
    by (simp add: capital_process_def null_means_def tp tn capital_process_positive_def
        capital_process_negative_def cumprod_def accumulate_def pf nf cb mk)
  have "betting_mart [1] m alpha None None None False (1 / 2) (1 / 2) True = Inr [Fin (p / 2)]"
    using b p1
    by (simp add: betting_mart_def population_overflow_def fn_positive_def fn_negative_def
        bets_shape_error_def bshape_def stretch_def cp)
  then show ?thesis by (simp only: p_def U_def)
qed

lemma betting_mart_one_step_boundary:
  assumes b: "default_bets alpha [1] m = Inr [Fin lam]" and lam: "0 < lam" and m: "m = 0 \<or> m = 1"
  shows "betting_mart [1] m alpha None None None False (1 / 2) (1 / 2) True = Inr [PInf]"
  using m
proof
  assume "m = 0"
  then show ?thesis using b lam by (simp add: betting_mart_eval min_def)
next
  assume "m = 1"
  then show ?thesis using b lam by (simp add: betting_mart_eval min_def)
qed

lemmas mart_at_sqrt2 = betting_mart_one_step[OF default_bets_at_sqrt2, simplified] betting_mart_one_step_boundary[OF default_bets_at_sqrt2, simplified]
lemmas mart_at_root8 = betting_mart_one_step[OF default_bets_at_root8, simplified] betting_mart_one_step_boundary[OF default_bets_at_root8, simplified]

lemma sqrt2_bounds: "7 / 5 \<le> sqrt 2" "sqrt 2 < 17 / 12"
proof -
  show "7 / 5 \<le> sqrt 2" by (rule real_le_rsqrt) (simp add: power2_eq_square)
  show "sqrt 2 < 17 / 12" by (rule real_less_lsqrt) (simp_all add: power2_eq_square)
qed

lemma le_root8_mult: "a \<le> b \<Longrightarrow> 0 \<le> b \<Longrightarrow> a \<le> sqrt (sqrt (sqrt 2)) * b"
proof -
  assume a: "a \<le> b" "0 \<le> b"
  have "1 * b \<le> sqrt (sqrt (sqrt 2)) * b"
    using a(2) by (intro mult_right_mono) simp_all
  with a show ?thesis by simp
qed

lemma confseq_mtx_at_sqrt2:
  "confseq_mtx (\<lambda>m. betting_mart [1] m (1 / sqrt 2) None None None False (1 / 2) (1 / 2) True)
     (1 / sqrt 2) (Suc 0) (possible_m 12)
   = Inr [[False], [False], [True], [True], [True], [True], [True], [True], [True], [True], [True], [True], [False]]"
  unfolding possible_m_12
  using sqrt2_bounds by (simp add: mart_at_sqrt2 broadcast_to_def)

lemma confseq_mtx_at_root8:
  "confseq_mtx (\<lambda>m. betting_mart [1] m (1 / sqrt (sqrt (sqrt 2))) None None None False (1 / 2) (1 / 2) True)
     (1 / sqrt (sqrt (sqrt 2))) (Suc 0) (possible_m 12)
   = Inr [[False], [True], [True], [True], [True], [True], [True], [True], [True], [True], [True], [True], [False]]"
  unfolding possible_m_12
  by (simp add: mart_at_root8 broadcast_to_def le_root8_mult)

lemma betting_cs_at_sqrt2:
  "betting_cs [1] (Single None) (Single None) (1 / sqrt 2) None 12 False False (1 / 2) (1 / 2) True
   = Inr ([Fin (1 / 12)], [Fin 1])"
  by (simp add: betting_cs_def diversified_single cs_from_martingale_def confseq_mtx_at_sqrt2 Let_def)
    (simp add: region_bounds_def where_in_cs_def upt_rec possible_m_12 fmaximum_def fminimum_def fsub_def)

lemma betting_cs_at_root8:
  "betting_cs [1] (Single None) (Single None) (1 / sqrt (sqrt (sqrt 2))) None 12 False False (1 / 2) (1 / 2) True
   = Inr ([Fin 0], [Fin 1])"
  by (simp add: betting_cs_def diversified_single cs_from_martingale_def confseq_mtx_at_root8 Let_def)
    (simp add: region_bounds_def where_in_cs_def upt_rec possible_m_12 fmaximum_def fminimum_def fsub_def)

lemma levels_ordered: "0 < 1 / sqrt 2" "1 / sqrt 2 < 1 / sqrt (sqrt (sqrt 2))" "1 / sqrt (sqrt (sqrt 2)) < (1::real)"
proof -
  show "0 < 1 / sqrt 2" by simp
  have "sqrt (sqrt (sqrt 2)) < sqrt 2"
    by (simp add: real_less_lsqrt power2_eq_square)
  then show "1 / sqrt 2 < 1 / sqrt (sqrt (sqrt 2))"
    by (simp add: frac_less2)
  show "1 / sqrt (sqrt (sqrt 2)) < (1::real)" by simp
qed

text \<open>
  C5, as the claim states it, fails: the default bets depend on \<open>\<alpha>\<close>. For the stream
  \<open>[1]\<close>, 12 breaks and all defaults, \<open>\<alpha> = 1/\<surd>2\<close> gives the first bet 2 and rejects the
  candidate \<open>1/12\<close> (capital \<open>17/12 > \<surd>2\<close>), so \<open>l\<^sub>1 = 1/12\<close>; the larger
  \<open>\<alpha>' = 2\<^bsup>-1/8\<^esup>\<close> gives the first bet 1 and accepts it (capital \<open>23/24\<close>), so \<open>l\<^sub>1 = 0\<close>.
\<close>

theorem default_bets_wider_at_larger_alpha:
  "0 < 1 / sqrt 2 \<and> 1 / sqrt 2 < 1 / sqrt (sqrt (sqrt 2)) \<and> 1 / sqrt (sqrt (sqrt 2)) < (1::real)
   \<and> betting_cs [1] (Single None) (Single None) (1 / sqrt 2) None 12 False False
        (1 / 2) (1 / 2) True = Inr ([Fin (1 / 12)], [Fin 1])
   \<and> betting_cs [1] (Single None) (Single None) (1 / sqrt (sqrt (sqrt 2))) None 12 False False
        (1 / 2) (1 / 2) True = Inr ([Fin 0], [Fin 1])
   \<and> \<not> fle (Fin (1 / 12)) (Fin 0)"
  using levels_ordered betting_cs_at_sqrt2 betting_cs_at_root8 by simp

lemma diversified_loop_cong:
  "(\<forall>k\<in>set ks. marts k = marts' k) \<Longrightarrow>
   diversified_loop marts w ks mart = diversified_loop marts' w ks mart"
  by (induction ks arbitrary: mart) (auto split: sum.splits)

lemma fn_explicit:
  "fn_positive alpha (Some f) = fn_positive alpha' (Some f)"
  "fn_negative alpha (Some f) g = fn_negative alpha' (Some f) g"
  by (cases g; simp add: fn_positive_def fn_negative_def)+

lemma betting_mart_explicit:
  "betting_mart x m alpha (Some f) g N cc theta ts mt
   = betting_mart x m alpha' (Some f) g N cc theta ts mt"
  unfolding betting_mart_def fn_explicit[where alpha = alpha and alpha' = alpha'] ..

lemma diversified_explicit:
  assumes "None \<notin> set fps"
  shows "diversified_betting_mart x m fps fns w alpha N cc theta ts mt
         = diversified_betting_mart x m fps fns w alpha' N cc theta ts mt"
proof -
  have "betting_mart x m alpha (fps ! k) g N cc theta ts mt
      = betting_mart x m alpha' (fps ! k) g N cc theta ts mt" if "k < length fps" for k g
  proof -
    from that assms obtain f where "fps ! k = Some f"
      by (cases "fps ! k") (auto simp: in_set_conv_nth)
    then show ?thesis by (simp add: betting_mart_explicit[of x m alpha f g N cc theta ts mt alpha'])
  qed
  then show ?thesis
    unfolding diversified_betting_mart_def Let_def
    by (auto intro!: diversified_loop_cong)
qed

lemma fle_threshold:
  assumes "0 < alpha" "alpha < alpha'" "fle c (Fin (1 / alpha'))"
  shows "fle c (Fin (1 / alpha))"
proof -
  have "1 / alpha' \<le> 1 / alpha" using assms by (simp add: frac_le)
  with assms(3) show ?thesis by (cases c) auto
qed

lemma confseq_mtx_mono:
  assumes a: "0 < alpha" "alpha < alpha'"
  shows "confseq_mtx mart alpha n grid = Inr mtx \<Longrightarrow>
     \<exists>mtx'. confseq_mtx mart alpha' n grid = Inr mtx' \<and> length mtx = length grid
       \<and> list_all2 (\<lambda>r' r. length r = n \<and> list_all2 (\<lambda>b' b. b' \<longrightarrow> b) r' r) mtx' mtx"
proof (induction grid arbitrary: mtx)
  case Nil
  then show ?case by simp
next
  case (Cons m ms)
  from Cons.prems obtain v row rows where v: "mart m = Inr v"
    and row: "broadcast_to n (map (\<lambda>c. fle c (Fin (1 / alpha))) v) = Inr row"
    and rows: "confseq_mtx mart alpha n ms = Inr rows" and mtx: "mtx = row # rows"
    by (auto split: sum.splits if_splits)
  from Cons.IH[OF rows] obtain rows' where rows': "confseq_mtx mart alpha' n ms = Inr rows'"
    "length rows = length ms"
    "list_all2 (\<lambda>r' r. length r = n \<and> list_all2 (\<lambda>b' b. b' \<longrightarrow> b) r' r) rows' rows"
    by blast
  have imp: "fle c (Fin (1 / alpha')) \<longrightarrow> fle c (Fin (1 / alpha))" for c
    using fle_threshold[OF a] by blast
  have "\<exists>row'. broadcast_to n (map (\<lambda>c. fle c (Fin (1 / alpha'))) v) = Inr row'
      \<and> length row = n \<and> list_all2 (\<lambda>b' b. b' \<longrightarrow> b) row' row"
  proof (cases "length v = n")
    case True
    with row have "row = map (\<lambda>c. fle c (Fin (1 / alpha))) v" by (simp add: broadcast_to_def)
    with True imp show ?thesis by (simp add: broadcast_to_def list_all2_map1 list_all2_map2 list_all2_same)
  next
    case False
    with row obtain c where c: "v = [c]"
      by (cases v) (auto simp: broadcast_to_def split: if_splits)
    with False row have "row = replicate n (fle c (Fin (1 / alpha)))"
      by (simp add: broadcast_to_def)
    with False c imp show ?thesis
      by (simp add: broadcast_to_def list_all2_conv_all_nth)
  qed
  then obtain row' where "broadcast_to n (map (\<lambda>c. fle c (Fin (1 / alpha'))) v) = Inr row'"
    "length row = n" "list_all2 (\<lambda>b' b. b' \<longrightarrow> b) row' row" by blast
  with v rows' mtx a show ?case by auto
qed

lemma possible_m_mono:
  "i \<le> j \<Longrightarrow> j < length (possible_m breaks) \<Longrightarrow> possible_m breaks ! i \<le> possible_m breaks ! j"
  by (simp add: possible_m_def divide_right_mono del: upt_Suc)

lemma where_in_cs_sorted: "sorted (where_in_cs mtx j)"
  by (simp add: where_in_cs_def sorted_wrt_filter)

lemma where_in_cs_bound: "i \<in> set (where_in_cs mtx j) \<Longrightarrow> i < length mtx"
  by (simp add: where_in_cs_def)

lemma where_in_cs_subset:
  assumes "list_all2 (\<lambda>r' r. length r = n \<and> list_all2 (\<lambda>b' b. b' \<longrightarrow> b) r' r) mtx' mtx" "j < n"
  shows "set (where_in_cs mtx' j) \<subseteq> set (where_in_cs mtx j)"
proof
  fix i assume "i \<in> set (where_in_cs mtx' j)"
  then have i: "i < length mtx'" "mtx' ! i ! j" by (simp_all add: where_in_cs_def)
  from assms(1) have len: "length mtx' = length mtx" by (rule list_all2_lengthD)
  from assms(1) i len have "length (mtx ! i) = n" "list_all2 (\<lambda>b' b. b' \<longrightarrow> b) (mtx' ! i) (mtx ! i)"
    by (auto simp: list_all2_conv_all_nth)
  with i assms(2) have "mtx ! i ! j" by (auto simp: list_all2_conv_all_nth)
  with i len show "i \<in> set (where_in_cs mtx j)" by (simp add: where_in_cs_def)
qed

lemma sorted_le_last: "sorted (ys::nat list) \<Longrightarrow> y \<in> set ys \<Longrightarrow> y \<le> last ys"
  by (induction ys) auto

lemma sorted_hd_le: "sorted (ys::nat list) \<Longrightarrow> y \<in> set ys \<Longrightarrow> hd ys \<le> y"
  by (cases ys) auto

lemma region_bounds_mono:
  assumes rel: "list_all2 (\<lambda>r' r. length r = n \<and> list_all2 (\<lambda>b' b. b' \<longrightarrow> b) r' r) mtx' mtx"
    and j: "j < n" and len: "length mtx = length (possible_m breaks)"
  shows "lo_rel (fst (region_bounds (possible_m breaks) mtx' j)) (fst (region_bounds (possible_m breaks) mtx j))"
    and "hi_rel (snd (region_bounds (possible_m breaks) mtx' j)) (snd (region_bounds (possible_m breaks) mtx j))"
proof -
  note sub = where_in_cs_subset[OF rel j]
  show "lo_rel (fst (region_bounds (possible_m breaks) mtx' j)) (fst (region_bounds (possible_m breaks) mtx j))"
  proof (cases "where_in_cs mtx' j")
    case Nil
    then show ?thesis by (simp add: region_bounds_def lo_rel_def)
  next
    case (Cons i' is')
    then have i': "i' \<in> set (where_in_cs mtx j)" using sub by auto
    then obtain i "is" where w: "where_in_cs mtx j = i # is" by (cases "where_in_cs mtx j") auto
    have "i \<le> i'" using sorted_hd_le[OF where_in_cs_sorted i'] w by simp
    moreover have "i' < length (possible_m breaks)" using where_in_cs_bound[OF i'] len by simp
    ultimately show ?thesis using Cons w
      by (simp add: region_bounds_def lo_rel_def possible_m_mono)
  qed
  show "hi_rel (snd (region_bounds (possible_m breaks) mtx' j)) (snd (region_bounds (possible_m breaks) mtx j))"
  proof (cases "where_in_cs mtx' j")
    case Nil
    then show ?thesis by (simp add: region_bounds_def hi_rel_def)
  next
    case (Cons i' is')
    then have "last (i' # is') \<in> set (where_in_cs mtx' j)" using last_in_set[of "i' # is'"] by simp
    then have l': "last (i' # is') \<in> set (where_in_cs mtx j)" using sub by auto
    then obtain i "is" where w: "where_in_cs mtx j = i # is" by (cases "where_in_cs mtx j") auto
    have "last (i' # is') \<le> last (i # is)"
      using sorted_le_last[OF where_in_cs_sorted l'] w by simp
    moreover have "last (i # is) \<in> set (where_in_cs mtx j)" using last_in_set[of "i # is"] w by simp
    then have "last (i # is) < length (possible_m breaks)" using where_in_cs_bound len by fastforce
    ultimately show ?thesis using Cons w
      by (simp add: region_bounds_def hi_rel_def possible_m_mono)
  qed
qed

lemma widen_lo: "lo_rel a' a \<Longrightarrow> lo_rel (fmaximum (Fin 0) (fsub a' (Fin c))) (fmaximum (Fin 0) (fsub a (Fin c)))"
  by (cases a'; cases a) (auto simp: lo_rel_def fmaximum_def fsub_def)

lemma widen_hi: "hi_rel b' b \<Longrightarrow> hi_rel (fminimum (Fin 1) (fadd b' (Fin c))) (fminimum (Fin 1) (fadd b (Fin c)))"
  by (cases b'; cases b) (auto simp: hi_rel_def fminimum_def)

lemma fmaximum_lo: "lo_rel a' a \<Longrightarrow> lo_rel v' v \<Longrightarrow> lo_rel (fmaximum a' v') (fmaximum a v)"
  by (cases a'; cases a; cases v'; cases v) (auto simp: lo_rel_def fmaximum_def)

lemma fminimum_hi: "hi_rel a' a \<Longrightarrow> hi_rel v' v \<Longrightarrow> hi_rel (fminimum a' v') (fminimum a v)"
  by (cases a'; cases a; cases v'; cases v) (auto simp: hi_rel_def fminimum_def)

lemma cum_rel:
  assumes "\<And>a' a v' v. R a' a \<Longrightarrow> R v' v \<Longrightarrow> R (f a' v') (f a v)"
  shows "R a' a \<Longrightarrow> list_all2 R vs' vs \<Longrightarrow> list_all2 R (cum f a' vs') (cum f a vs)"
proof (induction vs arbitrary: a' a vs')
  case Nil
  then show ?case by simp
next
  case (Cons v vs)
  then obtain v' ws' where "vs' = v' # ws'" "R v' v" "list_all2 R ws' vs"
    by (cases vs') auto
  with Cons.IH[of "f a' v'" "f a v" ws'] Cons.prems assms show ?case by simp
qed

lemma accumulate_rel:
  assumes "\<And>a' a v' v. R a' a \<Longrightarrow> R v' v \<Longrightarrow> R (f a' v') (f a v)"
    and "list_all2 R vs' vs"
  shows "list_all2 R (accumulate f vs') (accumulate f vs)"
proof (cases vs)
  case Nil
  with assms(2) show ?thesis by (simp add: accumulate_def)
next
  case (Cons v ws)
  with assms(2) obtain v' ws' where "vs' = v' # ws'" "R v' v" "list_all2 R ws' ws"
    by (cases vs') auto
  with Cons cum_rel[of R f v' v ws' ws] assms(1) show ?thesis
    by (simp add: accumulate_def)
qed

lemma lo_rel_same: "list_all2 lo_rel l' l \<Longrightarrow> length c = length l \<Longrightarrow>
   list_all2 lo_rel (map2 fmaximum l' c) (map2 fmaximum l c)"
proof (induction l arbitrary: l' c)
  case Nil then show ?case by simp
next
  case (Cons a l)
  then obtain a' m' where l': "l' = a' # m'" "lo_rel a' a" "list_all2 lo_rel m' l" by (cases l') auto
  from Cons.prems obtain d ds where c: "c = d # ds" "length ds = length l" by (cases c) auto
  have "lo_rel (fmaximum a' d) (fmaximum a d)"
    using l'(2) by (cases a'; cases a; cases d) (auto simp: lo_rel_def fmaximum_def)
  with Cons.IH[OF l'(3) c(2)] l' c show ?case by simp
qed

lemma hi_rel_same: "list_all2 hi_rel l' l \<Longrightarrow> length c = length l \<Longrightarrow>
   list_all2 hi_rel (map2 fminimum l' c) (map2 fminimum l c)"
proof (induction l arbitrary: l' c)
  case Nil then show ?case by simp
next
  case (Cons a l)
  then obtain a' m' where l': "l' = a' # m'" "hi_rel a' a" "list_all2 hi_rel m' l" by (cases l') auto
  from Cons.prems obtain d ds where c: "c = d # ds" "length ds = length l" by (cases c) auto
  have "hi_rel (fminimum a' d) (fminimum a d)"
    using l'(2) by (cases a'; cases a; cases d) (auto simp: hi_rel_def fminimum_def)
  with Cons.IH[OF l'(3) c(2)] l' c show ?case by simp
qed

lemma cs_from_martingale_mono:
  assumes a: "0 < alpha" "alpha < alpha'"
    and res: "cs_from_martingale x mart_fn breaks alpha N ri = Inr (l, u)"
  shows "\<exists>l' u'. cs_from_martingale x mart_fn breaks alpha' N ri = Inr (l', u')
     \<and> list_all2 lo_rel l' l \<and> list_all2 hi_rel u' u"
proof -
  from res have b: "breaks \<noteq> 0" by (auto simp: cs_from_martingale_def split: if_splits)
  from res b obtain mtx where mtx: "confseq_mtx (mart_fn x) alpha (length x) (possible_m breaks) = Inr mtx"
    by (auto simp: cs_from_martingale_def split: sum.splits)
  from confseq_mtx_mono[OF a mtx] obtain mtx' where
    mtx': "confseq_mtx (mart_fn x) alpha' (length x) (possible_m breaks) = Inr mtx'"
    and len: "length mtx = length (possible_m breaks)"
    and rel: "list_all2 (\<lambda>r' r. length r = length x \<and> list_all2 (\<lambda>b' b. b' \<longrightarrow> b) r' r) mtx' mtx"
    by blast
  define G where "G = possible_m breaks"
  define c where "c = 1 / real breaks"
  define l0 where "l0 M = map (\<lambda>b. fmaximum (Fin 0) (fsub (fst b) (Fin c))) (map (region_bounds G M) [0..<length x])" for M
  define u0 where "u0 M = map (\<lambda>b. fminimum (Fin 1) (fadd (snd b) (Fin c))) (map (region_bounds G M) [0..<length x])" for M
  define l1 where "l1 M = (case N of None \<Rightarrow> l0 M | Some N' \<Rightarrow> map2 fmaximum (l0 M) (fst (logical_cs x N')))" for M
  define u1 where "u1 M = (case N of None \<Rightarrow> u0 M | Some N' \<Rightarrow> map2 fminimum (u0 M) (snd (logical_cs x N')))" for M
  have cs: "cs_from_martingale x mart_fn breaks al N ri
      = Inr (if ri then (accumulate fmaximum (l1 M), accumulate fminimum (u1 M)) else (l1 M, u1 M))"
    if "confseq_mtx (mart_fn x) al (length x) (possible_m breaks) = Inr M" for al M
    using that b
    by (simp add: cs_from_martingale_def Let_def l1_def u1_def l0_def u0_def G_def c_def split: option.splits)
  have r0: "list_all2 lo_rel (l0 mtx') (l0 mtx)" "list_all2 hi_rel (u0 mtx') (u0 mtx)"
    using region_bounds_mono[OF rel _ len]
    by (auto simp: l0_def u0_def G_def list_all2_conv_all_nth intro!: widen_lo widen_hi)
  have r1: "list_all2 lo_rel (l1 mtx') (l1 mtx)" "list_all2 hi_rel (u1 mtx') (u1 mtx)"
    using r0 by (auto simp: l1_def u1_def l0_def u0_def split: option.splits
        intro!: lo_rel_same hi_rel_same)
  have r2: "list_all2 lo_rel (accumulate fmaximum (l1 mtx')) (accumulate fmaximum (l1 mtx))"
    "list_all2 hi_rel (accumulate fminimum (u1 mtx')) (accumulate fminimum (u1 mtx))"
    using r1 by (auto intro!: accumulate_rel fmaximum_lo fminimum_hi)
  from res cs[OF mtx] cs[OF mtx'] r1 r2 show ?thesis
    by (cases ri) auto
qed

text \<open>
  C5, amended. For two levels \<open>0 < \<alpha> < \<alpha>'\<close> and all other inputs of \<^verbatim>\<open>betting_cs\<close>
  equal, with every positive bet generator passed explicitly (so that the bets do not
  depend on the level): when the call at \<open>\<alpha>\<close> returns, so does the call at \<open>\<alpha>'\<close>, and at
  every \<open>t\<close> where its bound is not NaN, \<open>l\<^sub>t(\<alpha>') \<ge> l\<^sub>t(\<alpha>)\<close> and \<open>u\<^sub>t(\<alpha>') \<le> u\<^sub>t(\<alpha>)\<close>.
\<close>

theorem betting_cs_alpha_monotone:
  assumes a: "0 < alpha" "alpha < alpha'"
    and ex: "None \<notin> set (as_family pos)"
    and res: "betting_cs x pos neg alpha N breaks ri cc theta ts mt = Inr (l, u)"
  shows "\<exists>l' u'. betting_cs x pos neg alpha' N breaks ri cc theta ts mt = Inr (l', u')
     \<and> length l' = length l \<and> length u' = length u
     \<and> (\<forall>t<length l. isnan (l' ! t) \<or> fle (l ! t) (l' ! t))
     \<and> (\<forall>t<length u. isnan (u' ! t) \<or> fle (u' ! t) (u ! t))"
proof -
  define fns where "fns = as_family (case neg of Single None \<Rightarrow> pos | g \<Rightarrow> g)"
  have indep: "(\<lambda>x m. diversified_betting_mart x m (as_family pos) (Some fns) None alpha N cc theta ts mt)
      = (\<lambda>x m. diversified_betting_mart x m (as_family pos) (Some fns) None alpha' N cc theta ts mt)"
    using diversified_explicit[OF ex] by blast
  from res have len: "length (as_family pos) = length fns"
    by (auto simp: betting_cs_def Let_def fns_def split: if_splits)
  from res len have "cs_from_martingale x
      (\<lambda>x m. diversified_betting_mart x m (as_family pos) (Some fns) None alpha N cc theta ts mt)
      breaks alpha N ri = Inr (l, u)"
    by (simp add: betting_cs_def Let_def fns_def)
  from cs_from_martingale_mono[OF a this] obtain l' u' where
    "cs_from_martingale x
      (\<lambda>x m. diversified_betting_mart x m (as_family pos) (Some fns) None alpha N cc theta ts mt)
      breaks alpha' N ri = Inr (l', u')" "list_all2 lo_rel l' l" "list_all2 hi_rel u' u"
    by blast
  with len indep have "betting_cs x pos neg alpha' N breaks ri cc theta ts mt = Inr (l', u')"
    by (simp add: betting_cs_def Let_def fns_def)
  with \<open>list_all2 lo_rel l' l\<close> \<open>list_all2 hi_rel u' u\<close> show ?thesis
    by (auto simp: list_all2_conv_all_nth lo_rel_def hi_rel_def)
qed

text \<open>
  A generator that always bets 2, the stream \<open>[1, 1]\<close> and 4 breaks: at \<open>\<alpha> = 1/4\<close> the
  sequence is \<open>[0, 1]\<close> at both times; at \<open>\<alpha>' = 1/2\<close> the candidate \<open>1/4\<close> is rejected at
  the second time and the lower bound rises to \<open>1/4\<close>.
\<close>

theorem betting_cs_alpha_monotone_witness:
  "betting_cs [1, 1] (Single (Some (\<lambda>x m. Inr (map (\<lambda>_. Fin 2) x)))) (Single None) (1 / 4)
     None 4 False False (1 / 2) (1 / 2) True = Inr ([Fin 0, Fin 0], [Fin 1, Fin 1])
   \<and> betting_cs [1, 1] (Single (Some (\<lambda>x m. Inr (map (\<lambda>_. Fin 2) x)))) (Single None) (1 / 2)
     None 4 False False (1 / 2) (1 / 2) True = Inr ([Fin 0, Fin (1 / 4)], [Fin 1, Fin 1])
   \<and> fle ([Fin 0, Fin 0] ! 1) ([Fin 0, Fin (1 / 4)] ! 1)
   \<and> fle ([Fin 1, Fin 1] ! 1) ([Fin 1, Fin 1] ! 1)"
proof -
  have a: "(0::real) < 1 / 4" "(1::real) / 4 < 1 / 2"
    by simp_all
  have ex: "None \<notin> set (as_family (Single (Some (\<lambda>(x::real list) (m::real).
      (Inr (map (\<lambda>_. Fin 2) x) :: pyerror + npfloat list)))))"
    by simp
  have ra: "betting_cs [1, 1] (Single (Some (\<lambda>x m. Inr (map (\<lambda>_. Fin 2) x)))) (Single None)
      (1 / 4) None 4 False False (1 / 2) (1 / 2) True = Inr ([Fin 0, Fin 0], [Fin 1, Fin 1])"
    by (simp add: betting_cs_def diversified_betting_mart_def cs_from_martingale_def
        possible_m_def upt_rec betting_mart_eval region_bounds_def where_in_cs_def)
  have rb: "betting_cs [1, 1] (Single (Some (\<lambda>x m. Inr (map (\<lambda>_. Fin 2) x)))) (Single None)
      (1 / 2) None 4 False False (1 / 2) (1 / 2) True
      = Inr ([Fin 0, Fin (1 / 4)], [Fin 1, Fin 1])"
    by (simp add: betting_cs_def diversified_betting_mart_def cs_from_martingale_def
        possible_m_def upt_rec betting_mart_eval region_bounds_def where_in_cs_def)
  from betting_cs_alpha_monotone[OF a ex ra] rb
  have "\<forall>t<length [Fin 0, Fin 0]. isnan ([Fin 0, Fin (1 / 4)] ! t)
          \<or> fle ([Fin 0, Fin 0] ! t) ([Fin 0, Fin (1 / 4)] ! t)"
    and "\<forall>t<length [Fin 1, Fin 1 :: npfloat]. isnan ([Fin 1, Fin 1] ! t)
          \<or> fle ([Fin 1, Fin 1] ! t) ([Fin 1, Fin 1] ! t)"
    by auto
  then have "fle ([Fin 0, Fin 0] ! 1) ([Fin 0, Fin (1 / 4)] ! 1)"
    and "fle ([Fin 1, Fin 1] ! 1) ([Fin 1, Fin 1 :: npfloat] ! 1)"
    by auto
  with ra rb show ?thesis
    by blast
qed

section \<open>Inputs outside the stated ranges\<close>

lemma length_hoeffding_default_lambdas [simp]:
  "length (hoeffding_default_lambdas alpha n) = n"
  by (simp add: hoeffding_default_lambdas_def)

lemma predmix_hoeffding_cs_returns:
  assumes "alpha \<noteq> 0"
  shows "\<exists>l u. predmix_hoeffding_cs x None alpha ri = Inr (l, u)
           \<and> length l = length x \<and> length u = length x"
  using assms
  by (simp add: predmix_hoeffding_cs_def bc2_same_length Let_def)

lemma bc2_empty_left: "length ws \<le> 1 \<Longrightarrow> bc2 f [] ws = Inr []"
  by (cases ws) (auto simp: bc2_def)

lemma bc2_empty_right: "length vs \<le> 1 \<Longrightarrow> bc2 f vs [] = Inr []"
  by (cases vs) (auto simp: bc2_def)

lemma predmix_empbern_cs_returns:
  assumes "alpha \<noteq> 0"
  shows "\<exists>l u. predmix_empbern_cs x alpha T ri fixed_n = Inr (l, u)
           \<and> length l = length x \<and> length u = length x"
proof -
  have a: "alpha / 2 \<noteq> 0" using assms by simp
  from lambda_predmix_eb_returns[OF a, of x T fixed_n "1 / 2" "1 / 4" 1 1]
  obtain ls where ls: "lambda_predmix_eb x T (alpha / 2) fixed_n (1 / 2) (1 / 4) 1 1 = Inr ls"
    "length ls = (if x = [] \<and> fixed_n \<noteq> None then 1 else length x)"
    by blast
  show ?thesis
  proof (cases "x = []")
    case True
    with ls have "length ls \<le> 1" by (auto split: if_splits)
    then have c: "length (cumsum ls) \<le> 1" by simp
    from True ls assms c show ?thesis
      by (simp add: predmix_empbern_cs_def Let_def bc2_empty_left bc2_empty_right cumsum_def
          accumulate_def)
  next
    case False
    with ls have len: "length ls = length x" by simp
    from False have n: "Suc (length x - 1) = length x" by (cases x) auto
    from False ls assms len n show ?thesis
      by (simp add: predmix_empbern_cs_def Let_def bc2_same_length)
  qed
qed

lemma population_overflow_iff:
  "population_overflow N = (\<exists>N'. N = Some N' \<and> (N' < - (2 ^ 63) \<or> 2 ^ 63 \<le> N'))"
  by (cases N) (simp_all add: population_overflow_def int64_overflow_def)

lemma betting_mart_default_error:
  assumes "betting_mart x m alpha None None N cc theta ts mt = Inl e"
  shows "(e = OverflowError \<and> population_overflow N) \<or> (e = ZeroDivisionError \<and> alpha = 0)
       \<or> e = AssertNonneg \<or> e = AssertNoNan"
proof (cases "population_overflow N")
  case True
  with assms show ?thesis by (simp add: betting_mart_overflow)
next
  case fit: False
  show ?thesis
  proof (cases "alpha = 0")
    case True
    with assms fit show ?thesis
      by (simp add: betting_mart_def fn_positive_def default_bets_def lambda_predmix_eb_def)
  next
    case False
    from lambda_predmix_eb_returns[OF False, of x PInf None "1 / 2" "1 / 4" 1 1]
    obtain ls where ls: "default_bets alpha x m = Inr ls" "length ls = length x"
      by (auto simp: default_bets_def)
    then have g: "fn_positive alpha None x m = Inr ls" "fn_negative alpha None None x m = Inr ls"
      and b: "broadcast_to (length x) ls = Inr ls"
      by (simp_all add: fn_positive_def fn_negative_def broadcast_to_def)
    from assms show ?thesis
      unfolding betting_mart_run[OF fit g b b] by (auto split: if_splits)
  qed
qed

lemma confseq_mtx_error:
  assumes "confseq_mtx mart alpha n grid = Inl e"
    and len: "\<And>m v. mart m = Inr v \<Longrightarrow> length v = n"
  shows "(\<exists>m\<in>set grid. mart m = Inl e) \<or> (e = ZeroDivisionError \<and> alpha = 0)"
  using assms(1)
proof (induction grid)
  case Nil
  then show ?case by simp
next
  case (Cons m ms)
  show ?case
  proof (cases "mart m")
    case (Inl e')
    with Cons.prems show ?thesis by simp
  next
    case (Inr v)
    from len[OF Inr] have "broadcast_to n (map (\<lambda>c. fle c (Fin (1 / alpha))) v)
        = Inr (map (\<lambda>c. fle c (Fin (1 / alpha))) v)"
      by (simp add: broadcast_to_def)
    with Cons Inr show ?thesis
      by (auto split: if_splits sum.splits)
  qed
qed

lemma betting_cs_default_error:
  assumes "betting_cs x (Single None) (Single None) alpha N breaks ri cc theta ts mt = Inl e"
  shows "(e = ZeroDivisionError \<and> (alpha = 0 \<or> breaks = 0))
       \<or> (e = OverflowError \<and> population_overflow N) \<or> e = AssertNonneg \<or> e = AssertNoNan"
proof (cases "breaks = 0")
  case True
  with assms show ?thesis
    by (simp add: betting_cs_def cs_from_martingale_def)
next
  case False
  define mart where "mart = (\<lambda>m. betting_mart x m alpha None None N cc theta ts mt)"
  from assms False have "confseq_mtx mart alpha (length x) (possible_m breaks) = Inl e"
    by (auto simp: betting_cs_def cs_from_martingale_def diversified_single mart_def Let_def
        split: sum.splits)
  from confseq_mtx_error[OF this] betting_mart_Inr(1)
  have "(\<exists>m\<in>set (possible_m breaks). mart m = Inl e) \<or> (e = ZeroDivisionError \<and> alpha = 0)"
    by (auto simp: mart_def)
  then show ?thesis
  proof
    assume "\<exists>m\<in>set (possible_m breaks). mart m = Inl e"
    then obtain m where "betting_mart x m alpha None None N cc theta ts mt = Inl e"
      by (auto simp: mart_def)
    from betting_mart_default_error[OF this] show ?thesis
      by auto
  next
    assume "e = ZeroDivisionError \<and> alpha = 0"
    then show ?thesis by simp
  qed
qed

text \<open>
  C1, as the claim states it, fails: a stream entry 2, \<open>\<alpha> = 2\<close>, zero fake observations,
  a population size of \<open>-1\<close> and a truncation scale of 2 are all computed on, by
  \<^verbatim>\<open>lambda_predmix_eb\<close> and by \<^verbatim>\<open>betting_mart\<close>, and an array is returned.
\<close>

theorem out_of_range_inputs_accepted:
  "lambda_predmix_eb [2] PInf 2 None (1 / 2) (1 / 4) 0 1 = Inr [Fin 0]
   \<and> betting_mart [2] (1 / 2) 2 None None (Some (- 1)) False (1 / 2) 2 True = Inr [Fin (1 / 2)]"
  by (simp add: betting_mart_eval bets_eval mu_t_def wrap64_def ln_div)

text \<open>
  C1, amended. No operation checks a range; each computes on what it is given, and
  what it raises comes from the arithmetic or from the two assertions that close
  \<^verbatim>\<open>betting_mart\<close>. \<^verbatim>\<open>lambda_predmix_eb\<close> returns its bets for every stream,
  truncation, prior, number of fake observations and scale and every \<open>\<alpha> \<noteq> 0\<close> (one
  bet per observation, and one bet for an empty stream with \<^verbatim>\<open>fixed_n\<close>), and
  raises \<^verbatim>\<open>ZeroDivisionError\<close>, from \<^verbatim>\<open>1 / alpha\<close>, at \<open>\<alpha> = 0\<close>.
  \<^verbatim>\<open>betting_mart\<close>, when its generators return one bet per observation, fails only
  with \<^verbatim>\<open>OverflowError\<close>, for a population size that does not fit 64 bits, or in
  its closing assertions, on a negative or a NaN entry of the capital process it has
  computed in full. \<^verbatim>\<open>betting_cs\<close> with the default bets fails only with
  \<^verbatim>\<open>ZeroDivisionError\<close>, at \<open>\<alpha> = 0\<close> or \<^verbatim>\<open>breaks = 0\<close>, or as \<^verbatim>\<open>betting_mart\<close>
  does. \<^verbatim>\<open>predmix_hoeffding_cs\<close> with its default bets and \<^verbatim>\<open>predmix_empbern_cs\<close>
  return two bounds per observation for every stream and every \<open>\<alpha> \<noteq> 0\<close>, and
  \<^verbatim>\<open>logical_cs\<close> does for every stream and every population size of 64 bits, zero
  and the negative ones included.
\<close>

theorem no_range_validation:
  "(alpha \<noteq> 0 \<longrightarrow>
      (\<exists>ls. lambda_predmix_eb x T alpha fixed_n pm pv k s = Inr ls
            \<and> length ls = (if x = [] \<and> fixed_n \<noteq> None then 1 else length x)))
   \<and> lambda_predmix_eb x T 0 fixed_n pm pv k s = Inl ZeroDivisionError
   \<and> (fn_positive alpha fp x m = Inr lp \<and> length lp = length x
        \<and> fn_negative alpha fp fn x m = Inr lq \<and> length lq = length x
        \<and> betting_mart x m alpha fp fn N cc theta ts mt = Inl e
      \<longrightarrow> (e = OverflowError \<and> (\<exists>N'. N = Some N' \<and> (N' < - (2 ^ 63) \<or> 2 ^ 63 \<le> N')))
          \<or> (e = AssertNonneg
             \<and> list_ex (\<lambda>c. flt c (Fin 0)) (capital_process x m N cc theta ts mt lp lq))
          \<or> (e = AssertNoNan \<and> list_ex isnan (capital_process x m N cc theta ts mt lp lq)))
   \<and> (betting_cs x (Single None) (Single None) alpha N breaks ri cc theta ts mt = Inl e'
      \<longrightarrow> (e' = ZeroDivisionError \<and> (alpha = 0 \<or> breaks = 0))
          \<or> (e' = OverflowError \<and> (\<exists>N'. N = Some N' \<and> (N' < - (2 ^ 63) \<or> 2 ^ 63 \<le> N')))
          \<or> e' = AssertNonneg \<or> e' = AssertNoNan)
   \<and> (alpha \<noteq> 0 \<longrightarrow>
        (\<exists>l u. predmix_hoeffding_cs x None alpha ri = Inr (l, u)
               \<and> length l = length x \<and> length u = length x))
   \<and> (alpha \<noteq> 0 \<longrightarrow>
        (\<exists>l u. predmix_empbern_cs x alpha T ri fixed_n = Inr (l, u)
               \<and> length l = length x \<and> length u = length x))
   \<and> (- (2 ^ 63) \<le> N\<^sub>l \<and> N\<^sub>l < 2 ^ 63 \<longrightarrow>
        length (fst (logical_cs x N\<^sub>l)) = length x \<and> length (snd (logical_cs x N\<^sub>l)) = length x)"
proof (intro conjI impI)
  assume "alpha \<noteq> 0"
  then show "\<exists>ls. lambda_predmix_eb x T alpha fixed_n pm pv k s = Inr ls
      \<and> length ls = (if x = [] \<and> fixed_n \<noteq> None then 1 else length x)"
    by (rule lambda_predmix_eb_returns)
next
  show "lambda_predmix_eb x T 0 fixed_n pm pv k s = Inl ZeroDivisionError"
    by (simp add: lambda_predmix_eb_def)
next
  assume a: "fn_positive alpha fp x m = Inr lp \<and> length lp = length x
        \<and> fn_negative alpha fp fn x m = Inr lq \<and> length lq = length x
        \<and> betting_mart x m alpha fp fn N cc theta ts mt = Inl e"
  then have b: "broadcast_to (length x) lp = Inr lp" "broadcast_to (length x) lq = Inr lq"
    by (simp_all add: broadcast_to_def)
  show "(e = OverflowError \<and> (\<exists>N'. N = Some N' \<and> (N' < - (2 ^ 63) \<or> 2 ^ 63 \<le> N')))
      \<or> (e = AssertNonneg
         \<and> list_ex (\<lambda>c. flt c (Fin 0)) (capital_process x m N cc theta ts mt lp lq))
      \<or> (e = AssertNoNan \<and> list_ex isnan (capital_process x m N cc theta ts mt lp lq))"
  proof (cases "population_overflow N")
    case True
    with a show ?thesis
      by (auto simp: betting_mart_overflow population_overflow_iff)
  next
    case False
    from a betting_mart_run[OF False _ _ b, of alpha fp m fn cc theta ts mt]
    show ?thesis
      by (auto split: if_splits)
  qed
next
  assume "betting_cs x (Single None) (Single None) alpha N breaks ri cc theta ts mt = Inl e'"
  from betting_cs_default_error[OF this]
  show "(e' = ZeroDivisionError \<and> (alpha = 0 \<or> breaks = 0))
      \<or> (e' = OverflowError \<and> (\<exists>N'. N = Some N' \<and> (N' < - (2 ^ 63) \<or> 2 ^ 63 \<le> N')))
      \<or> e' = AssertNonneg \<or> e' = AssertNoNan"
    by (auto simp: population_overflow_iff)
next
  assume "alpha \<noteq> 0"
  then show "\<exists>l u. predmix_hoeffding_cs x None alpha ri = Inr (l, u)
      \<and> length l = length x \<and> length u = length x"
    by (rule predmix_hoeffding_cs_returns)
next
  assume "alpha \<noteq> 0"
  then show "\<exists>l u. predmix_empbern_cs x alpha T ri fixed_n = Inr (l, u)
      \<and> length l = length x \<and> length u = length x"
    by (rule predmix_empbern_cs_returns)
qed simp_all

text \<open>
  Out of range everywhere: the bets and the closed-form confidence sequences are
  returned; \<open>\<alpha> = 0\<close> is a division by zero; a stream entry \<open>-3\<close> is met by the assertion on
  the capital \<open>1 + 1/2 \<sqdot> (-3 - 1/2) < 0\<close>; and a population size of \<open>2\<^sup>6\<^sup>3\<close> is an overflow.
\<close>

theorem no_range_validation_witness:
  "(\<exists>ls. lambda_predmix_eb [- 3] (Fin (- 1)) 2 None 7 (- 1) 0 (- 1) = Inr ls
         \<and> length ls = length [- 3 :: real])
   \<and> lambda_predmix_eb [- 3] (Fin (- 1)) 0 None 7 (- 1) 0 (- 1) = Inl ZeroDivisionError
   \<and> betting_mart [- 3] (1 / 2) 2 (Some (\<lambda>x m. Inr [Fin 1])) None None False 1 (1 / 2) False
       = Inl AssertNonneg
   \<and> list_ex (\<lambda>c. flt c (Fin 0))
       (capital_process [- 3] (1 / 2) None False 1 (1 / 2) False [Fin 1] [Fin 1])
   \<and> betting_cs [- 3] (Single None) (Single None) 2 (Some (2 ^ 63)) 1 True False 1 (1 / 2) False
       = Inl OverflowError
   \<and> population_overflow (Some (2 ^ 63))
   \<and> (\<exists>l u. predmix_hoeffding_cs [- 3] None 2 True = Inr (l, u)
         \<and> length l = length [- 3 :: real] \<and> length u = length [- 3 :: real])
   \<and> (\<exists>l u. predmix_empbern_cs [- 3] 2 (Fin (- 1)) True None = Inr (l, u)
         \<and> length l = length [- 3 :: real] \<and> length u = length [- 3 :: real])
   \<and> length (fst (logical_cs [- 3] (- 1))) = length [- 3 :: real]"
proof -
  have bm: "betting_mart [- 3] (1 / 2) 2 (Some (\<lambda>x m. Inr [Fin 1])) None None False 1 (1 / 2)
      False = Inl AssertNonneg"
    by (simp add: betting_mart_eval)
  have g: "fn_positive 2 (Some (\<lambda>x m. Inr [Fin 1])) [- 3] (1 / 2) = Inr [Fin 1]"
    "fn_negative 2 (Some (\<lambda>x m. Inr [Fin 1])) None [- 3] (1 / 2) = Inr [Fin 1]"
    by (simp_all add: fn_positive_def fn_negative_def)
  have cs: "betting_cs [- 3] (Single None) (Single None) 2 (Some (2 ^ 63)) 1 True False 1 (1 / 2)
      False = Inl OverflowError"
    by (simp add: betting_cs_def cs_from_martingale_def possible_m_def upt_rec
        diversified_betting_mart_def betting_mart_def population_overflow_def int64_overflow_def)
  have two: "(2::real) \<noteq> 0" and fit: "- (2 ^ 63) \<le> (- 1 :: int) \<and> (- 1 :: int) < 2 ^ 63"
    by simp_all
  from no_range_validation[where alpha = 2 and x = "[- 3]" and T = "Fin (- 1)"
      and fixed_n = None and pm = 7 and pv = "- 1" and k = 0 and s = "- 1"
      and fp = "Some (\<lambda>x m. Inr [Fin 1])" and m = "1 / 2" and lp = "[Fin 1]" and fn = None
      and lq = "[Fin 1]" and N = None and cc = False and theta = 1 and ts = "1 / 2"
      and mt = False and e = AssertNonneg and ri = True and N\<^sub>l = "- 1"] two fit
  have "(\<exists>ls. lambda_predmix_eb [- 3] (Fin (- 1)) 2 None 7 (- 1) 0 (- 1) = Inr ls
         \<and> length ls = length [- 3 :: real])"
    and "lambda_predmix_eb [- 3] (Fin (- 1)) 0 None 7 (- 1) 0 (- 1) = Inl ZeroDivisionError"
    and "list_ex (\<lambda>c. flt c (Fin 0))
       (capital_process [- 3] (1 / 2) None False 1 (1 / 2) False [Fin 1] [Fin 1])"
    and "(\<exists>l u. predmix_hoeffding_cs [- 3] None 2 True = Inr (l, u)
         \<and> length l = length [- 3 :: real] \<and> length u = length [- 3 :: real])"
    and "(\<exists>l u. predmix_empbern_cs [- 3] 2 (Fin (- 1)) True None = Inr (l, u)
         \<and> length l = length [- 3 :: real] \<and> length u = length [- 3 :: real])"
    and "length (fst (logical_cs [- 3] (- 1))) = length [- 3 :: real]"
    using bm g by auto
  moreover from no_range_validation[where alpha = 2 and x = "[- 3]" and N = "Some (2 ^ 63)"
      and breaks = 1 and ri = True and cc = False and theta = 1 and ts = "1 / 2" and mt = False
      and e' = OverflowError] cs
  have "population_overflow (Some (2 ^ 63))"
    by (simp add: population_overflow_iff)
  ultimately show ?thesis
    using bm cs by blast
qed

end
